theory Spec2Isabelle
  imports Complex_Main "HOL-Library.Multiset"
begin

section \<open>Python values and errors\<close>

text \<open>
  The program is \<^verbatim>\<open>ga_pmsp.py\<close>. Job and machine indices and counts are natural
  numbers (a chromosome is built from \<^verbatim>\<open>range(n_jobs)\<close>, machines from
  \<^verbatim>\<open>range(n_machines)\<close>). A \<^verbatim>\<open>null\<close> entry of the setup matrix is \<open>None\<close>.
  Every exception the interpreter can raise is a value \<open>Inl e\<close>.
\<close>

datatype py_error = ValueError | IndexError | TypeError | ZeroDivisionError | OverflowError

definition and_then :: "py_error + 'a \<Rightarrow> ('a \<Rightarrow> py_error + 'b) \<Rightarrow> py_error + 'b" where
  "and_then x f = (case x of Inl e \<Rightarrow> Inl e | Inr v \<Rightarrow> f v)"

text \<open>\<^verbatim>\<open>xs[i]\<close> for a non-negative index: IndexError out of range.\<close>

definition py_index :: "'a list \<Rightarrow> nat \<Rightarrow> py_error + 'a" where
  "py_index xs i = (if i < length xs then Inr (xs ! i) else Inl IndexError)"

section \<open>Numbers\<close>

text \<open>
  Times (processing, ready, setup, makespan) are Python numbers: floats, or the integers
  of the JSON file. The program compares them, adds them, and in the lower bound
  subtracts and divides them. Their arithmetic is not exact: a float sum is rounded and
  becomes \<^verbatim>\<open>inf\<close> when it overflows, and an operation that has to convert an integer
  too large for a float raises OverflowError. The model therefore takes the numbers as
  any linearly ordered type \<open>'v\<close> (the order of Python numbers, none of which is NaN here)
  and their arithmetic as a parameter \<open>ar\<close>: the values \<^verbatim>\<open>0.0\<close> and
  \<^verbatim>\<open>float("inf")\<close>, and the three operations, each with the result \<open>None\<close> where
  Python raises OverflowError. What is proved for every \<open>ar\<close> holds for the arithmetic
  of the interpreter.
\<close>

record 'v arith =
  num_zero :: 'v
  num_inf :: 'v
  num_add :: "'v \<Rightarrow> 'v \<Rightarrow> 'v option"
  num_sub :: "'v \<Rightarrow> 'v \<Rightarrow> 'v option"
  num_div :: "'v \<Rightarrow> nat \<Rightarrow> 'v option"

definition raise_overflow :: "'v option \<Rightarrow> py_error + 'v" where
  "raise_overflow x = (case x of None \<Rightarrow> Inl OverflowError | Some v \<Rightarrow> Inr v)"

definition py_add :: "'v arith \<Rightarrow> 'v \<Rightarrow> 'v \<Rightarrow> py_error + 'v" where
  "py_add ar a b = raise_overflow (num_add ar a b)"

definition py_sub :: "'v arith \<Rightarrow> 'v \<Rightarrow> 'v \<Rightarrow> py_error + 'v" where
  "py_sub ar a b = raise_overflow (num_sub ar a b)"

text \<open>\<^verbatim>\<open>a / n\<close> for an integer \<open>n\<close>: ZeroDivisionError when \<open>n\<close> is 0.\<close>

definition py_div :: "'v arith \<Rightarrow> 'v \<Rightarrow> nat \<Rightarrow> py_error + 'v" where
  "py_div ar a n = (if n = 0 then Inl ZeroDivisionError else raise_overflow (num_div ar a n))"

text \<open>\<^verbatim>\<open>sum(xs)\<close>: the elements are added one by one to the running total, from 0.\<close>

fun sum_from :: "'v arith \<Rightarrow> 'v list \<Rightarrow> 'v \<Rightarrow> py_error + 'v" where
  "sum_from ar [] acc = Inr acc"
| "sum_from ar (x # xs) acc = and_then (py_add ar acc x) (sum_from ar xs)"

definition py_sum :: "'v arith \<Rightarrow> 'v list \<Rightarrow> py_error + 'v" where
  "py_sum ar xs = sum_from ar xs (num_zero ar)"

text \<open>\<^verbatim>\<open>max(xs)\<close> and \<^verbatim>\<open>min(xs)\<close> of a list: ValueError on the empty list.\<close>

definition py_max :: "('v::linorder) list \<Rightarrow> py_error + 'v" where
  "py_max xs = (case xs of [] \<Rightarrow> Inl ValueError | x # ys \<Rightarrow> Inr (fold max ys x))"

definition py_min :: "('v::linorder) list \<Rightarrow> py_error + 'v" where
  "py_min xs = (case xs of [] \<Rightarrow> Inl ValueError | x # ys \<Rightarrow> Inr (fold min ys x))"

text \<open>
  A concrete arithmetic for the runs on concrete inputs: double precision read as the
  real numbers below \<open>2 ^ 1024\<close>, with \<^verbatim>\<open>inf\<close> as \<open>2 ^ 1024\<close> (written in
  decimal); a sum that reaches \<open>2 ^ 1024\<close> is \<^verbatim>\<open>inf\<close>, \<^verbatim>\<open>inf\<close> less or
  divided by a number is \<^verbatim>\<open>inf\<close>, and nothing raises. It has no rounding: it is
  the interpreter's arithmetic on the inputs used below, the sums of which are exact in
  double precision.
\<close>

definition overflow_bound :: real where
  "overflow_bound = 179769313486231590772930519078902473361797697894230657273430081157732675805500963132708477322407536021120113879871393357658789768814416622492847430639474124377767893424865485276302219601246094119453082952085005768838150682342462881473913110540827237163350510684586298239947245938479716304835356329624224137216"

definition double_arith :: "real arith" where
  "double_arith =
     \<lparr>num_zero = 0, num_inf = overflow_bound,
      num_add = (\<lambda>a b. Some (min (a + b) overflow_bound)),
      num_sub = (\<lambda>a b. Some (if a = overflow_bound then a else a - b)),
      num_div = (\<lambda>a n. Some (if a = overflow_bound then a else a / real n))\<rparr>"

section \<open>The instance\<close>

text \<open>
  The invariants of a loaded instance: at least one machine, all arrays sized
  \<open>n_jobs\<close>, every time a number from 0 up, below \<^verbatim>\<open>inf\<close>. The setup matrix holds
  \<open>None\<close> where the JSON holds \<^verbatim>\<open>null\<close>.
\<close>

definition is_time :: "('v::linorder) arith \<Rightarrow> 'v \<Rightarrow> bool" where
  "is_time ar x = (num_zero ar \<le> x \<and> x < num_inf ar)"

definition well_formed ::
  "('v::linorder) arith \<Rightarrow> nat \<Rightarrow> nat \<Rightarrow> 'v list \<Rightarrow> 'v list \<Rightarrow> 'v option list list \<Rightarrow> bool" where
  "well_formed ar n_jobs n_machines processing_times ready_times setup_matrix =
     (1 \<le> n_machines \<and>
      length processing_times = n_jobs \<and>
      length ready_times = n_jobs \<and>
      length setup_matrix = n_jobs \<and>
      list_all (\<lambda>row. length row = n_jobs) setup_matrix \<and>
      list_all (is_time ar) processing_times \<and>
      list_all (is_time ar) ready_times \<and>
      list_all (list_all (\<lambda>e. case e of None \<Rightarrow> True | Some v \<Rightarrow> is_time ar v)) setup_matrix)"

text \<open>An ordering is a permutation of \<open>0..n_jobs-1\<close>.\<close>

definition is_permutation :: "nat \<Rightarrow> nat list \<Rightarrow> bool" where
  "is_permutation n order = (mset order = mset [0..<n])"

section \<open>decode\_schedule\<close>

text \<open>
  The four lists the decoder maintains: \<open>machine_time\<close>, \<open>last_job\<close>,
  \<open>completion_times\<close> and \<open>schedule\<close> (one list of \<open>(job, start, end)\<close> per machine).
\<close>

record 'v decoder_state =
  machine_time :: "'v list"
  last_job :: "nat option list"
  completion_times :: "'v list"
  schedule :: "(nat \<times> 'v \<times> 'v) list list"

definition init_state :: "'v arith \<Rightarrow> nat \<Rightarrow> nat \<Rightarrow> 'v decoder_state" where
  "init_state ar n_machines n =
     \<lparr>machine_time = replicate n_machines (num_zero ar),
      last_job = replicate n_machines None,
      completion_times = replicate n (num_zero ar),
      schedule = replicate n_machines []\<rparr>"

text \<open>The setup read from the matrix: \<^verbatim>\<open>if s is None: s = 0.0\<close>.\<close>

definition setup_value :: "'v arith \<Rightarrow> 'v option \<Rightarrow> 'v" where
  "setup_value ar s = (case s of None \<Rightarrow> num_zero ar | Some v \<Rightarrow> v)"

text \<open>
  The body of the inner loop for machine \<open>m\<close>, up to the comparison: the pair
  \<open>(start, completion)\<close> the job would get on that machine. The setup is added only
  when the machine has a last job.
\<close>

definition candidate ::
  "('v::linorder) arith \<Rightarrow> 'v list \<Rightarrow> 'v list \<Rightarrow> 'v option list list \<Rightarrow> 'v decoder_state
     \<Rightarrow> nat \<Rightarrow> nat \<Rightarrow> py_error + ('v \<times> 'v)" where
  "candidate ar processing_times ready_times setup_matrix st job m =
     and_then (py_index (machine_time st) m) (\<lambda>t0.
     and_then (py_index (last_job st) m) (\<lambda>lj.
     and_then (case lj of
                 None \<Rightarrow> Inr t0
               | Some l \<Rightarrow>
                   and_then (py_index setup_matrix l) (\<lambda>row.
                   and_then (py_index row job) (\<lambda>s. py_add ar t0 (setup_value ar s)))) (\<lambda>t.
     and_then (py_index ready_times job) (\<lambda>rj.
     and_then (py_index processing_times job) (\<lambda>pj.
     and_then (py_add ar (max t rj) pj) (\<lambda>completion.
       Inr (max t rj, completion)))))))"

text \<open>
  The inner loop. The running best is the triple
  \<open>(best_machine, best_start, best_completion)\<close>, replaced when
  \<^verbatim>\<open>completion < best_completion\<close>.
\<close>

fun scan_machines ::
  "('v::linorder) arith \<Rightarrow> 'v list \<Rightarrow> 'v list \<Rightarrow> 'v option list list \<Rightarrow> 'v decoder_state
     \<Rightarrow> nat \<Rightarrow> nat list \<Rightarrow> nat option \<times> 'v \<times> 'v \<Rightarrow> py_error + (nat option \<times> 'v \<times> 'v)" where
  "scan_machines ar p r s st job [] cur = Inr cur"
| "scan_machines ar p r s st job (m # ms) cur =
     and_then (candidate ar p r s st job m) (\<lambda>(start, completion).
       scan_machines ar p r s st job ms
         (case cur of (best_machine, best_start, best_completion) \<Rightarrow>
            if completion < best_completion then (Some m, start, completion)
            else (best_machine, best_start, best_completion)))"

text \<open>
  One iteration of the outer loop: the scan starts from
  \<^verbatim>\<open>(None, 0.0, float("inf"))\<close>; then the job is committed.
  When no completion was below \<^verbatim>\<open>inf\<close>, \<open>best_machine\<close> is still \<open>None\<close> and
  \<^verbatim>\<open>machine_time[None] = ...\<close> is a TypeError.
\<close>

definition place_job ::
  "('v::linorder) arith \<Rightarrow> nat \<Rightarrow> 'v list \<Rightarrow> 'v list \<Rightarrow> 'v option list list \<Rightarrow> 'v decoder_state
     \<Rightarrow> nat \<Rightarrow> py_error + 'v decoder_state" where
  "place_job ar n_machines p r s st job =
     and_then (scan_machines ar p r s st job [0..<n_machines]
                 (None, num_zero ar, num_inf ar)) (\<lambda>(best_machine, bs, bc).
       case best_machine of
         None \<Rightarrow> Inl TypeError
       | Some bm \<Rightarrow>
           if \<not> bm < length (machine_time st) then Inl IndexError
           else if \<not> bm < length (last_job st) then Inl IndexError
           else if \<not> job < length (completion_times st) then Inl IndexError
           else if \<not> bm < length (schedule st) then Inl IndexError
           else Inr \<lparr>machine_time = (machine_time st)[bm := bc],
                     last_job = (last_job st)[bm := Some job],
                     completion_times = (completion_times st)[job := bc],
                     schedule = (schedule st)[bm := schedule st ! bm @ [(job, bs, bc)]]\<rparr>)"

fun decode_loop ::
  "('v::linorder) arith \<Rightarrow> nat \<Rightarrow> 'v list \<Rightarrow> 'v list \<Rightarrow> 'v option list list \<Rightarrow> nat list
     \<Rightarrow> 'v decoder_state \<Rightarrow> py_error + 'v decoder_state" where
  "decode_loop ar n_machines p r s [] st = Inr st"
| "decode_loop ar n_machines p r s (job # jobs) st =
     and_then (place_job ar n_machines p r s st job) (decode_loop ar n_machines p r s jobs)"

definition decode_schedule ::
  "('v::linorder) arith \<Rightarrow> nat list \<Rightarrow> nat \<Rightarrow> 'v list \<Rightarrow> 'v list \<Rightarrow> 'v option list list
     \<Rightarrow> py_error + ('v \<times> (nat \<times> 'v \<times> 'v) list list)" where
  "decode_schedule ar order n_machines processing_times ready_times setup_matrix =
     and_then (decode_loop ar n_machines processing_times ready_times setup_matrix order
                 (init_state ar n_machines (length order))) (\<lambda>st.
     and_then (py_max (completion_times st)) (\<lambda>makespan.
       Inr (makespan, schedule st)))"

section \<open>calcular\_ddlb\<close>

text \<open>
  The generator inside \<^verbatim>\<open>min(...)\<close>: for \<open>j\<close> in \<open>range(n_jobs)\<close>, \<open>j \<noteq> i\<close>, the
  entry \<open>setup_matrix[i][j]\<close> is read (IndexError out of range) and kept when it is
  not \<open>None\<close>.
\<close>

fun outgoing_setups ::
  "'v option list list \<Rightarrow> nat \<Rightarrow> nat list \<Rightarrow> py_error + 'v list" where
  "outgoing_setups s i [] = Inr []"
| "outgoing_setups s i (j # js) =
     (if j \<noteq> i then
        and_then (py_index s i) (\<lambda>row.
        and_then (py_index row j) (\<lambda>e.
        and_then (outgoing_setups s i js) (\<lambda>rest.
          Inr (case e of None \<Rightarrow> rest | Some v \<Rightarrow> v # rest))))
      else outgoing_setups s i js)"

text \<open>The first loop: \<open>deltas\<close>, one minimum per job, in job order.\<close>

fun compute_deltas ::
  "nat \<Rightarrow> ('v::linorder) option list list \<Rightarrow> nat list \<Rightarrow> py_error + 'v list" where
  "compute_deltas n_jobs s [] = Inr []"
| "compute_deltas n_jobs s (i # is) =
     and_then (outgoing_setups s i [0..<n_jobs]) (\<lambda>outs.
     and_then (py_min outs) (\<lambda>min_setup_i.
     and_then (compute_deltas n_jobs s is) (\<lambda>rest.
       Inr (min_setup_i # rest))))"

text \<open>
  The last loop: the running maximum of \<open>r[i] + p[i] + deltas[i]\<close>, from \<^verbatim>\<open>0.0\<close>.
\<close>

fun critical_path ::
  "('v::linorder) arith \<Rightarrow> 'v list \<Rightarrow> 'v list \<Rightarrow> 'v list \<Rightarrow> nat list \<Rightarrow> 'v
     \<Rightarrow> py_error + 'v" where
  "critical_path ar p r deltas [] limite = Inr limite"
| "critical_path ar p r deltas (i # is) limite =
     and_then (py_index r i) (\<lambda>ri.
     and_then (py_index p i) (\<lambda>pi.
     and_then (py_add ar ri pi) (\<lambda>rp.
     and_then (py_index deltas i) (\<lambda>di.
     and_then (py_add ar rp di) (\<lambda>caminho_i.
       critical_path ar p r deltas is (if caminho_i > limite then caminho_i else limite))))))"

definition calcular_ddlb ::
  "('v::linorder) arith \<Rightarrow> nat \<Rightarrow> nat \<Rightarrow> 'v list \<Rightarrow> 'v option list list \<Rightarrow> 'v list
     \<Rightarrow> py_error + 'v" where
  "calcular_ddlb ar n_jobs n_machines processing_times setup_matrix ready_times =
     and_then (compute_deltas n_jobs setup_matrix [0..<n_jobs]) (\<lambda>deltas.
     and_then (py_sum ar processing_times) (\<lambda>soma_p.
     and_then (py_sum ar deltas) (\<lambda>soma_deltas.
     and_then (py_sum ar (take n_machines (rev (sort deltas)))) (\<lambda>soma_maiores.
     and_then (py_sub ar soma_deltas soma_maiores) (\<lambda>setup_total_minimo.
     and_then (py_add ar soma_p setup_total_minimo) (\<lambda>carga.
     and_then (py_div ar carga n_machines) (\<lambda>limite_carga_trabalho.
     and_then (critical_path ar processing_times ready_times deltas [0..<n_jobs]
                 (num_zero ar)) (\<lambda>limite_caminho_critico.
       Inr (max limite_carga_trabalho limite_caminho_critico)))))))))"

section \<open>The random source\<close>

text \<open>
  The module \<^verbatim>\<open>random\<close> is the only source of nondeterminism. Its generator is
  modelled by the outcomes it will deliver: the floats that \<^verbatim>\<open>random.random()\<close>
  returns, and the raw integers from which a bounded integer is drawn. A run consumes
  finitely many of them, so a finite tape (read as followed by zeros) stands for any
  generator state, and a property proved for every tape holds for every sequence of
  random draws.
\<close>

record rng =
  coins :: "real list"
  ints :: "nat list"

definition random_random :: "rng \<Rightarrow> real \<times> rng" where
  "random_random g = (case coins g of [] \<Rightarrow> (0, g) | u # us \<Rightarrow> (u, g\<lparr>coins := us\<rparr>))"

text \<open>An integer below \<open>n\<close>, for \<open>n > 0\<close> (the library's \<^verbatim>\<open>_randbelow\<close>).\<close>

definition randbelow :: "nat \<Rightarrow> rng \<Rightarrow> nat \<times> rng" where
  "randbelow n g = (case ints g of [] \<Rightarrow> (0, g) | x # xs \<Rightarrow> (x mod n, g\<lparr>ints := xs\<rparr>))"

text \<open>\<^verbatim>\<open>x[i], x[j] = x[j], x[i]\<close>: the right-hand side is read first.\<close>

definition swap :: "'a list \<Rightarrow> nat \<Rightarrow> nat \<Rightarrow> 'a list" where
  "swap xs i j = xs[i := xs ! j, j := xs ! i]"

text \<open>
  \<^verbatim>\<open>random.shuffle(x)\<close>: for \<open>i\<close> from \<open>len(x) - 1\<close> down to 1, swap \<open>x[i]\<close> with
  \<open>x[j]\<close>, \<open>j\<close> drawn below \<open>i + 1\<close>.
\<close>

fun shuffle_loop :: "nat \<Rightarrow> 'a list \<Rightarrow> rng \<Rightarrow> 'a list \<times> rng" where
  "shuffle_loop 0 xs g = (xs, g)"
| "shuffle_loop (Suc i) xs g =
     (let (j, g') = randbelow (Suc (Suc i)) g in shuffle_loop i (swap xs (Suc i) j) g')"

definition random_shuffle :: "'a list \<Rightarrow> rng \<Rightarrow> 'a list \<times> rng" where
  "random_shuffle xs g = shuffle_loop (length xs - 1) xs g"

text \<open>
  \<^verbatim>\<open>random.sample(population, k)\<close>: ValueError unless \<open>0 \<le> k \<le> len(population)\<close>;
  otherwise \<open>k\<close> elements at distinct positions, drawn from a pool: for \<open>i\<close> in
  \<open>range(k)\<close>, \<open>j\<close> is drawn below \<open>n - i\<close>, \<open>pool[j]\<close> is taken and replaced by
  \<open>pool[n - i - 1]\<close>. (For a population much larger than \<open>k\<close> the library draws
  positions until it has \<open>k\<close> different ones instead; the elements are again at
  distinct positions of the population.)
\<close>

fun sample_loop :: "nat \<Rightarrow> 'a list \<Rightarrow> nat list \<Rightarrow> rng \<Rightarrow> 'a list \<times> rng" where
  "sample_loop n pool [] g = ([], g)"
| "sample_loop n pool (i # is) g =
     (let (j, g') = randbelow (n - i) g;
          (rest, g'') = sample_loop n (pool[j := pool ! (n - i - 1)]) is g'
      in (pool ! j # rest, g''))"

definition random_sample :: "'a list \<Rightarrow> int \<Rightarrow> rng \<Rightarrow> py_error + ('a list \<times> rng)" where
  "random_sample population k g =
     (if 0 \<le> k \<and> k \<le> int (length population)
      then Inr (sample_loop (length population) population [0..<nat k] g)
      else Inl ValueError)"

section \<open>The genetic algorithm\<close>

text \<open>An individual is the dictionary \<^verbatim>\<open>{"chromosome": ..., "cost": ...}\<close>.\<close>

record 'v individual =
  chromosome :: "nat list"
  cost :: 'v

definition evaluate ::
  "('v::linorder) arith \<Rightarrow> nat list \<Rightarrow> nat \<Rightarrow> 'v list \<Rightarrow> 'v list \<Rightarrow> 'v option list list
     \<Rightarrow> py_error + 'v" where
  "evaluate ar order n_machines processing_times ready_times setup_matrix =
     and_then (decode_schedule ar order n_machines processing_times ready_times setup_matrix)
       (\<lambda>(makespan, sched). Inr makespan)"

definition create_individual ::
  "('v::linorder) arith \<Rightarrow> nat \<Rightarrow> nat \<Rightarrow> 'v list \<Rightarrow> 'v list \<Rightarrow> 'v option list list \<Rightarrow> rng
     \<Rightarrow> py_error + ('v individual \<times> rng)" where
  "create_individual ar n_jobs n_machines processing_times ready_times setup_matrix g =
     (let (chromosome, g') = random_shuffle [0..<n_jobs] g in
      and_then (evaluate ar chromosome n_machines processing_times ready_times setup_matrix)
        (\<lambda>cost. Inr (\<lparr>chromosome = chromosome, cost = cost\<rparr>, g')))"

text \<open>
  \<^verbatim>\<open>min(population, key=lambda ind: ind["cost"])\<close>: the first individual of minimal
  cost; ValueError on the empty list.
\<close>

definition min_by_cost :: "('v::linorder) individual list \<Rightarrow> py_error + 'v individual" where
  "min_by_cost population =
     (case population of
        [] \<Rightarrow> Inl ValueError
      | x # xs \<Rightarrow> Inr (fold (\<lambda>y best. if cost y < cost best then y else best) xs x))"

definition tournament_selection ::
  "('v::linorder) individual list \<Rightarrow> int \<Rightarrow> rng \<Rightarrow> py_error + ('v individual \<times> rng)" where
  "tournament_selection population k g =
     and_then (random_sample population k g) (\<lambda>(candidates, g').
     and_then (min_by_cost candidates) (\<lambda>winner. Inr (winner, g')))"

text \<open>
  The fill loop of \<open>order_crossover\<close>. The child is a list of genes or \<open>None\<close>; a gene
  not yet in the child goes to position \<open>pos\<close>, which wraps to 0 at the end.
\<close>

fun ox_fill :: "nat \<Rightarrow> nat list \<Rightarrow> nat option list \<Rightarrow> nat \<Rightarrow> nat option list" where
  "ox_fill sz [] child pos = child"
| "ox_fill sz (gene # genes) child pos =
     (if Some gene \<notin> set child then
        let pos' = (if pos \<ge> sz then 0 else pos)
        in ox_fill sz genes (child[pos' := Some gene]) (pos' + 1)
      else ox_fill sz genes child pos)"

text \<open>
  \<^verbatim>\<open>a, b = sorted(random.sample(range(size), 2))\<close> raises ValueError when
  \<open>size < 2\<close>; the slice assignment \<^verbatim>\<open>child[a:b] = parent1[a:b]\<close> replaces the
  positions \<open>a..b-1\<close>.
\<close>

definition order_crossover ::
  "nat list \<Rightarrow> nat list \<Rightarrow> rng \<Rightarrow> py_error + (nat option list \<times> rng)" where
  "order_crossover parent1 parent2 g =
     (let sz = length parent1 in
      and_then (random_sample [0..<sz] 2 g) (\<lambda>(cuts, g').
        case sort cuts of
          [a, b] \<Rightarrow>
            let child = replicate sz None;
                child = take a child @ map Some (take (b - a) (drop a parent1)) @ drop b child
            in Inr (ox_fill sz (drop b parent2 @ take b parent2) child b, g')
        | _ \<Rightarrow> Inl ValueError))"

text \<open>
  \<open>mutate_swap\<close>: for each position \<open>i\<close>, with \<^verbatim>\<open>random.random() < mutation_rate\<close>,
  swap with the position \<^verbatim>\<open>random.randrange(size)\<close> (\<open>size > 0\<close> inside the loop).
\<close>

fun mutate_loop :: "nat \<Rightarrow> real \<Rightarrow> nat list \<Rightarrow> 'a list \<Rightarrow> rng \<Rightarrow> 'a list \<times> rng" where
  "mutate_loop sz rate [] c g = (c, g)"
| "mutate_loop sz rate (i # is) c g =
     (let (u, g1) = random_random g in
      if u < rate then
        let (j, g2) = randbelow sz g1 in mutate_loop sz rate is (swap c i j) g2
      else mutate_loop sz rate is c g1)"

definition mutate_swap :: "'a list \<Rightarrow> real \<Rightarrow> rng \<Rightarrow> 'a list \<times> rng" where
  "mutate_swap c mutation_rate g = mutate_loop (length c) mutation_rate [0..<length c] c g"

text \<open>
  The cost of a child. A child that still holds \<open>None\<close> cannot be decoded: the decoder
  raises TypeError when it reaches the \<open>None\<close>, unless an earlier job has raised already.
\<close>

definition evaluate_genes ::
  "('v::linorder) arith \<Rightarrow> nat option list \<Rightarrow> nat \<Rightarrow> 'v list \<Rightarrow> 'v list \<Rightarrow> 'v option list list
     \<Rightarrow> py_error + 'v individual" where
  "evaluate_genes ar genes n_machines p r s =
     (case those genes of
        Some order \<Rightarrow>
          and_then (evaluate ar order n_machines p r s)
            (\<lambda>c. Inr \<lparr>chromosome = order, cost = c\<rparr>)
      | None \<Rightarrow>
          and_then (decode_loop ar n_machines p r s
                      (map the (takeWhile (\<lambda>x. x \<noteq> None) genes))
                      (init_state ar n_machines (length genes)))
            (\<lambda>st. Inl TypeError))"

text \<open>
  The first half of the body of the breeding loop: two tournaments, the crossover or the
  two copies, the two mutations.
\<close>

definition breed_children ::
  "('v::linorder) individual list \<Rightarrow> real \<Rightarrow> real \<Rightarrow> int \<Rightarrow> rng
     \<Rightarrow> py_error + (nat option list \<times> nat option list \<times> rng)" where
  "breed_children population crossover_rate mutation_rate tournament_k g =
     and_then (tournament_selection population tournament_k g) (\<lambda>(w1, g1).
     and_then (tournament_selection population tournament_k g1) (\<lambda>(w2, g2).
       let parent1 = chromosome w1;
           parent2 = chromosome w2;
           (u, g3) = random_random g2
       in and_then
            (if u < crossover_rate then
               and_then (order_crossover parent1 parent2 g3) (\<lambda>(child1, g4).
               and_then (order_crossover parent2 parent1 g4) (\<lambda>(child2, g5).
                 Inr (child1, child2, g5)))
             else Inr (map Some parent1, map Some parent2, g3))
            (\<lambda>(child1, child2, g6).
               let (child1', g7) = mutate_swap child1 mutation_rate g6;
                   (child2', g8) = mutate_swap child2 mutation_rate g7
               in Inr (child1', child2', g8))))"

text \<open>
  The loop \<^verbatim>\<open>while len(new_population) < pop_size\<close>: the first child is evaluated
  and appended; the second only if there is still room.
\<close>

function breed ::
  "('v::linorder) arith \<Rightarrow> nat \<Rightarrow> 'v list \<Rightarrow> 'v list \<Rightarrow> 'v option list list \<Rightarrow> int \<Rightarrow> real
     \<Rightarrow> real \<Rightarrow> int \<Rightarrow> 'v individual list \<Rightarrow> 'v individual list \<Rightarrow> rng
     \<Rightarrow> py_error + ('v individual list \<times> rng)" where
  "breed ar n_machines p r s pop_size crossover_rate mutation_rate tournament_k
     population new_population g =
     (if int (length new_population) < pop_size then
        and_then (breed_children population crossover_rate mutation_rate tournament_k g)
          (\<lambda>(child1, child2, g').
        and_then (evaluate_genes ar child1 n_machines p r s) (\<lambda>ind1.
          if int (length (new_population @ [ind1])) < pop_size then
            and_then (evaluate_genes ar child2 n_machines p r s) (\<lambda>ind2.
              breed ar n_machines p r s pop_size crossover_rate mutation_rate tournament_k
                population (new_population @ [ind1] @ [ind2]) g')
          else
            breed ar n_machines p r s pop_size crossover_rate mutation_rate tournament_k
              population (new_population @ [ind1]) g'))
      else Inr (new_population, g))"
  by pat_completeness auto
termination
  by (relation "measure (\<lambda>(ar, n_machines, p, r, s, pop_size, crossover_rate, mutation_rate,
        tournament_k, population, new_population, g). nat (pop_size - int (length new_population)))")
     auto

declare breed.simps [simp del]

text \<open>One generation: elitism, breeding, replacement, the entry of the history.\<close>

definition generation ::
  "('v::linorder) arith \<Rightarrow> nat \<Rightarrow> 'v list \<Rightarrow> 'v list \<Rightarrow> 'v option list list \<Rightarrow> int \<Rightarrow> real
     \<Rightarrow> real \<Rightarrow> int \<Rightarrow> 'v individual list \<Rightarrow> 'v individual \<Rightarrow> 'v list \<Rightarrow> rng
     \<Rightarrow> py_error + ('v individual list \<times> 'v individual \<times> 'v list \<times> rng)" where
  "generation ar n_machines p r s pop_size crossover_rate mutation_rate tournament_k
     population best best_history g =
     and_then (min_by_cost population) (\<lambda>elite.
       let best = (if cost elite < cost best then elite else best);
           new_population = [\<lparr>chromosome = chromosome elite, cost = cost elite\<rparr>]
       in and_then (breed ar n_machines p r s pop_size crossover_rate mutation_rate tournament_k
                      population new_population g) (\<lambda>(population, g').
          and_then (min_by_cost population) (\<lambda>best_gen.
            Inr (population, best, best_history @ [cost best_gen], g'))))"

fun ga_loop ::
  "nat \<Rightarrow> ('v::linorder) arith \<Rightarrow> nat \<Rightarrow> 'v list \<Rightarrow> 'v list \<Rightarrow> 'v option list list \<Rightarrow> int
     \<Rightarrow> real \<Rightarrow> real \<Rightarrow> int \<Rightarrow> 'v individual list \<Rightarrow> 'v individual \<Rightarrow> 'v list \<Rightarrow> rng
     \<Rightarrow> py_error + ('v individual \<times> 'v list)" where
  "ga_loop 0 ar n_machines p r s pop_size crossover_rate mutation_rate tournament_k
     population best best_history g = Inr (best, best_history)"
| "ga_loop (Suc gens) ar n_machines p r s pop_size crossover_rate mutation_rate tournament_k
     population best best_history g =
     and_then (generation ar n_machines p r s pop_size crossover_rate mutation_rate tournament_k
                 population best best_history g) (\<lambda>(population, best, best_history, g').
       ga_loop gens ar n_machines p r s pop_size crossover_rate mutation_rate tournament_k
         population best best_history g')"

text \<open>The initial population: \<open>pop_size\<close> individuals, created in order.\<close>

fun init_population ::
  "nat \<Rightarrow> ('v::linorder) arith \<Rightarrow> nat \<Rightarrow> nat \<Rightarrow> 'v list \<Rightarrow> 'v list \<Rightarrow> 'v option list list
     \<Rightarrow> rng \<Rightarrow> py_error + ('v individual list \<times> rng)" where
  "init_population 0 ar n_jobs n_machines p r s g = Inr ([], g)"
| "init_population (Suc k) ar n_jobs n_machines p r s g =
     and_then (create_individual ar n_jobs n_machines p r s g) (\<lambda>(ind, g').
     and_then (init_population k ar n_jobs n_machines p r s g') (\<lambda>(rest, g'').
       Inr (ind # rest, g'')))"

record 'v ga_result =
  best :: "'v individual"
  history :: "'v list"

text \<open>
  \<open>genetic_algorithm\<close>; \<^verbatim>\<open>range(pop_size)\<close> and \<^verbatim>\<open>range(generations)\<close> are empty
  for a non-positive argument. The progress line printed every tenth generation is not
  modelled.
\<close>

definition genetic_algorithm ::
  "('v::linorder) arith \<Rightarrow> nat \<Rightarrow> nat \<Rightarrow> 'v list \<Rightarrow> 'v list \<Rightarrow> 'v option list list \<Rightarrow> int \<Rightarrow> int
     \<Rightarrow> real \<Rightarrow> real \<Rightarrow> int \<Rightarrow> rng \<Rightarrow> py_error + 'v ga_result" where
  "genetic_algorithm ar n_jobs n_machines processing_times ready_times setup_matrix
     pop_size generations crossover_rate mutation_rate tournament_k g =
     and_then (init_population (nat pop_size) ar n_jobs n_machines processing_times ready_times
                 setup_matrix g) (\<lambda>(population, g').
     and_then (min_by_cost population) (\<lambda>best.
     and_then (ga_loop (nat generations) ar n_machines processing_times ready_times setup_matrix
                 pop_size crossover_rate mutation_rate tournament_k
                 population best [cost best] g') (\<lambda>(best, best_history).
       Inr \<lparr>best = best, history = best_history\<rparr>)))"

section \<open>Schedule validity\<close>







section \<open>Machine selection and overflow\<close>


text \<open>
  The arithmetic overflows at \<open>job\<close> in the state \<open>st\<close>: an addition of a candidate
  raises OverflowError, or the candidate finish is not below \<^verbatim>\<open>inf\<close> on any
  machine.
\<close>

definition overflows ::
  "('v::linorder) arith \<Rightarrow> nat \<Rightarrow> 'v list \<Rightarrow> 'v list \<Rightarrow> 'v option list list \<Rightarrow> 'v decoder_state
     \<Rightarrow> nat \<Rightarrow> bool" where
  "overflows ar n_machines p r s st job =
     (list_ex (\<lambda>m. candidate ar p r s st job m = Inl OverflowError) [0..<n_machines] \<or>
      list_all (\<lambda>m. case candidate ar p r s st job m of
                       Inl e \<Rightarrow> False
                     | Inr (a, f) \<Rightarrow> \<not> f < num_inf ar) [0..<n_machines])"

text \<open>Job \<open>i\<close> has no defined setup towards any other job.\<close>

definition lacks_setup :: "nat \<Rightarrow> 'v option list list \<Rightarrow> nat \<Rightarrow> bool" where
  "lacks_setup n s i = list_all (\<lambda>j. j = i \<or> s ! i ! j = None) [0..<n]"

section \<open>Auxiliary predicates of the proofs\<close>

text \<open>
  The two outcomes of the scan of the machines: the running best is kept, or a machine of
  the list is picked, strictly better than every machine before it and at least as good
  as every machine after it.
\<close>

definition kept ::
  "('v::linorder) arith \<Rightarrow> 'v list \<Rightarrow> 'v list \<Rightarrow> 'v option list list \<Rightarrow> 'v decoder_state
     \<Rightarrow> nat \<Rightarrow> nat list \<Rightarrow> nat option \<times> 'v \<times> 'v \<Rightarrow> nat option \<times> 'v \<times> 'v \<Rightarrow> bool" where
  "kept ar p r s st job ms cur res =
     (res = cur \<and>
      (\<forall>m\<in>set ms. \<exists>a f. candidate ar p r s st job m = Inr (a, f) \<and>
          \<not> f < snd (snd cur)))"

definition picked ::
  "('v::linorder) arith \<Rightarrow> 'v list \<Rightarrow> 'v list \<Rightarrow> 'v option list list \<Rightarrow> 'v decoder_state
     \<Rightarrow> nat \<Rightarrow> nat list \<Rightarrow> nat option \<times> 'v \<times> 'v \<Rightarrow> nat option \<times> 'v \<times> 'v \<Rightarrow> bool" where
  "picked ar p r s st job ms cur res =
     (\<exists>pre bm post a f.
        ms = pre @ bm # post \<and> res = (Some bm, a, f) \<and>
        candidate ar p r s st job bm = Inr (a, f) \<and> f < snd (snd cur) \<and>
        (\<forall>m\<in>set pre. \<exists>a' f'. candidate ar p r s st job m = Inr (a', f') \<and> f < f') \<and>
        (\<forall>m\<in>set post. \<exists>a' f'. candidate ar p r s st job m = Inr (a', f') \<and> f \<le> f'))"


definition decoder_dims :: "nat \<Rightarrow> nat \<Rightarrow> 'v decoder_state \<Rightarrow> bool" where
  "decoder_dims n_machines n st =
     (length (machine_time st) = n_machines \<and> length (last_job st) = n_machines \<and>
      length (schedule st) = n_machines \<and> length (completion_times st) = n \<and>
      (\<forall>m<n_machines. case last_job st ! m of None \<Rightarrow> True | Some l \<Rightarrow> l < n))"

text \<open>
  The invariant of the fill loop of \<open>order_crossover\<close>: the \<open>k\<close> slots from \<open>pos\<close>
  on, cyclically, are exactly the empty ones, and the genes present are \<open>n - k\<close> distinct
  elements of \<open>U\<close>.
\<close>

definition genes_of :: "nat option list \<Rightarrow> nat set" where
  "genes_of child = {x. Some x \<in> set child}"

definition ox_inv :: "nat \<Rightarrow> nat set \<Rightarrow> nat option list \<Rightarrow> nat \<Rightarrow> nat \<Rightarrow> bool" where
  "ox_inv n U child pos k =
     (length child = n \<and> pos \<le> n \<and> k \<le> n \<and>
      (\<forall>i<n. (child ! i = None) = (\<exists>j<k. i = (pos + j) mod n)) \<and>
      genes_of child \<subseteq> U \<and> card (genes_of child) + k = n)"

text \<open>A computation that returns a value or raises OverflowError, and nothing else.\<close>

definition ok_or_overflow :: "py_error + 'a \<Rightarrow> bool" where
  "ok_or_overflow x = ((\<exists>v. x = Inr v) \<or> x = Inl OverflowError)"

section \<open>Lemmas on the decoder\<close>

lemma and_then_Inr: "(and_then x f = Inr y) = (\<exists>v. x = Inr v \<and> f v = Inr y)"
  by (cases x) (simp_all add: and_then_def)



lemma py_add_cases: "(\<exists>c. py_add ar a b = Inr c) \<or> py_add ar a b = Inl OverflowError"
  by (simp add: py_add_def raise_overflow_def split: option.splits)


lemma pickedI:
  "ms = pre @ bm # post \<Longrightarrow> res = (Some bm, a, f) \<Longrightarrow>
   candidate ar p r s st job bm = Inr (a, f) \<Longrightarrow> f < snd (snd cur) \<Longrightarrow>
   (\<forall>m\<in>set pre. \<exists>a' f'. candidate ar p r s st job m = Inr (a', f') \<and> f < f') \<Longrightarrow>
   (\<forall>m\<in>set post. \<exists>a' f'. candidate ar p r s st job m = Inr (a', f') \<and> f \<le> f') \<Longrightarrow>
   picked ar p r s st job ms cur res"
  unfolding picked_def by blast

lemma scan_machines_result:
  "scan_machines ar p r s st job ms cur = Inr res \<Longrightarrow>
     kept ar p r s st job ms cur res \<or> picked ar p r s st job ms cur res"
proof (induction ms arbitrary: cur)
  case Nil
  then show ?case by (simp add: kept_def)
next
  case (Cons m ms)
  obtain cm cs cc where cur: "cur = (cm, cs, cc)" by (cases cur)
  from Cons.prems obtain a f where c: "candidate ar p r s st job m = Inr (a, f)"
    and rec: "scan_machines ar p r s st job ms
                (if f < cc then (Some m, a, f) else (cm, cs, cc)) = Inr res"
    by (auto simp: and_then_Inr cur)
  show ?case
  proof (cases "f < cc")
    case True
    with rec have rec': "scan_machines ar p r s st job ms (Some m, a, f) = Inr res" by simp
    from Cons.IH[OF rec'] show ?thesis
    proof
      assume k: "kept ar p r s st job ms (Some m, a, f) res"
      then have r: "res = (Some m, a, f)" by (simp add: kept_def)
      have all: "\<forall>m'\<in>set ms. \<exists>a' f'. candidate ar p r s st job m' = Inr (a', f') \<and> f \<le> f'"
      proof
        fix m' assume "m' \<in> set ms"
        with k obtain a' f' where "candidate ar p r s st job m' = Inr (a', f')"
          and "\<not> f' < f" unfolding kept_def by fastforce
        then show "\<exists>a' f'. candidate ar p r s st job m' = Inr (a', f') \<and> f \<le> f'"
          by auto
      qed
      have "picked ar p r s st job (m # ms) cur res"
        by (rule pickedI[where pre="[]" and bm=m and post=ms and a=a and f=f])
           (use r c True all cur in simp_all)
      then show ?thesis ..
    next
      assume "picked ar p r s st job ms (Some m, a, f) res"
      then obtain pre bm post a2 f2 where
        ms: "ms = pre @ bm # post" and r: "res = (Some bm, a2, f2)"
        and c2: "candidate ar p r s st job bm = Inr (a2, f2)"
        and lt: "f2 < f"
        and pre: "\<forall>m'\<in>set pre. \<exists>a' f'. candidate ar p r s st job m' = Inr (a', f') \<and> f2 < f'"
        and post: "\<forall>m'\<in>set post. \<exists>a' f'. candidate ar p r s st job m' = Inr (a', f') \<and> f2 \<le> f'"
        unfolding picked_def by auto
      have i: "f2 < snd (snd cur)" using True lt cur by simp
      have pre': "\<forall>m'\<in>set (m # pre). \<exists>a' f'. candidate ar p r s st job m' = Inr (a', f') \<and> f2 < f'"
        using pre c lt by simp
      have "picked ar p r s st job (m # ms) cur res"
        by (rule pickedI[where pre="m # pre" and bm=bm and post=post and a=a2 and f=f2])
           (use ms r c2 i pre' post in simp_all)
      then show ?thesis ..
    qed
  next
    case False
    with rec have rec': "scan_machines ar p r s st job ms cur = Inr res" by (simp add: cur)
    from Cons.IH[OF rec'] show ?thesis
    proof
      assume "kept ar p r s st job ms cur res"
      then have "kept ar p r s st job (m # ms) cur res"
        using c False cur by (simp add: kept_def)
      then show ?thesis ..
    next
      assume "picked ar p r s st job ms cur res"
      then obtain pre bm post a2 f2 where
        ms: "ms = pre @ bm # post" and r: "res = (Some bm, a2, f2)"
        and c2: "candidate ar p r s st job bm = Inr (a2, f2)"
        and imp: "f2 < snd (snd cur)"
        and pre: "\<forall>m'\<in>set pre. \<exists>a' f'. candidate ar p r s st job m' = Inr (a', f') \<and> f2 < f'"
        and post: "\<forall>m'\<in>set post. \<exists>a' f'. candidate ar p r s st job m' = Inr (a', f') \<and> f2 \<le> f'"
        unfolding picked_def by blast
      have lt: "f2 < f" using imp False cur by simp
      have pre': "\<forall>m'\<in>set (m # pre). \<exists>a' f'. candidate ar p r s st job m' = Inr (a', f') \<and> f2 < f'"
        using pre c lt by simp
      have "picked ar p r s st job (m # ms) cur res"
        by (rule pickedI[where pre="m # pre" and bm=bm and post=post and a=a2 and f=f2])
           (use ms r c2 imp pre' post in simp_all)
      then show ?thesis ..
    qed
  qed
qed

lemma upt_split:
  assumes "[0..<n] = pre @ bm # post"
  shows "bm < n \<and> set pre = {0..<bm} \<and> set post = {Suc bm..<n}"
proof -
  let ?k = "length pre"
  have len: "n = ?k + Suc (length post)"
    using arg_cong[OF assms, of length] by simp
  have klt: "?k < n" using len by simp
  have "bm = [0..<n] ! ?k" using assms by simp
  then have bm: "bm = ?k" using klt by (simp del: upt_Suc)
  have "pre = take ?k [0..<n]" using assms by simp
  then have p: "pre = [0..<?k]" using len by simp
  have "post = drop (Suc ?k) [0..<n]" using assms by simp
  then have q: "post = [Suc ?k..<n]" by simp
  have "set pre = {0..<bm}" using p bm by (metis atLeastLessThan_upt)
  moreover have "set post = {Suc bm..<n}" using q bm by (metis atLeastLessThan_upt)
  ultimately show ?thesis using klt bm by simp
qed

lemma scan_all_machines:
  assumes "scan_machines ar p r s st job [0..<n_machines] (None, z, w) = Inr res"
  shows "(res = (None, z, w) \<and>
          (\<forall>m<n_machines. \<exists>a f. candidate ar p r s st job m = Inr (a, f) \<and> \<not> f < w)) \<or>
         (\<exists>bm a f. res = (Some bm, a, f) \<and> bm < n_machines \<and>
            candidate ar p r s st job bm = Inr (a, f) \<and> f < w \<and>
            (\<forall>m<n_machines. \<exists>a' f'. candidate ar p r s st job m = Inr (a', f') \<and>
                f \<le> f' \<and> (m < bm \<longrightarrow> f < f')))"
  using scan_machines_result[OF assms]
proof
  assume "kept ar p r s st job [0..<n_machines] (None, z, w) res"
  then have "res = (None, z, w) \<and>
          (\<forall>m<n_machines. \<exists>a f. candidate ar p r s st job m = Inr (a, f) \<and> \<not> f < w)"
    by (simp add: kept_def)
  then show ?thesis ..
next
  assume "picked ar p r s st job [0..<n_machines] (None, z, w) res"
  then obtain pre bm post a f where
    sp: "[0..<n_machines] = pre @ bm # post" and r: "res = (Some bm, a, f)"
    and c: "candidate ar p r s st job bm = Inr (a, f)" and lt: "f < w"
    and pre: "\<forall>m\<in>set pre. \<exists>a' f'. candidate ar p r s st job m = Inr (a', f') \<and> f < f'"
    and post: "\<forall>m\<in>set post. \<exists>a' f'. candidate ar p r s st job m = Inr (a', f') \<and> f \<le> f'"
    unfolding picked_def by auto
  from upt_split[OF sp] have bm: "bm < n_machines" and sp': "set pre = {0..<bm}"
    and sq: "set post = {Suc bm..<n_machines}" by simp_all
  have "\<exists>a' f'. candidate ar p r s st job m = Inr (a', f') \<and> f \<le> f' \<and> (m < bm \<longrightarrow> f < f')"
    if "m < n_machines" for m
  proof -
    consider "m < bm" | "m = bm" | "bm < m" by linarith
    then show ?thesis
    proof cases
      case 1
      then have "m \<in> set pre" using sp' by simp
      with pre obtain a' f' where "candidate ar p r s st job m = Inr (a', f')" "f < f'" by blast
      then show ?thesis by auto
    next
      case 2
      with c show ?thesis by simp
    next
      case 3
      then have "m \<in> set post" using sq that by simp
      with post obtain a' f' where "candidate ar p r s st job m = Inr (a', f')" "f \<le> f'" by blast
      then show ?thesis using 3 by auto
    qed
  qed
  then have "\<exists>bm a f. res = (Some bm, a, f) \<and> bm < n_machines \<and>
            candidate ar p r s st job bm = Inr (a, f) \<and> f < w \<and>
            (\<forall>m<n_machines. \<exists>a' f'. candidate ar p r s st job m = Inr (a', f') \<and>
                f \<le> f' \<and> (m < bm \<longrightarrow> f < f'))"
    using r bm c lt by blast
  then show ?thesis ..
qed













lemma candidate_outcome:
  assumes d: "decoder_dims n_machines n st"
    and lp: "length p = n" and lr: "length r = n" and ls: "length s = n"
    and rows: "\<forall>row\<in>set s. length row = n"
    and job: "job < n" and m: "m < n_machines"
  shows "(\<exists>c. candidate ar p r s st job m = Inr c) \<or>
         candidate ar p r s st job m = Inl OverflowError"
proof -
  have i1: "py_index (machine_time st) m = Inr (machine_time st ! m)"
    and i2: "py_index (last_job st) m = Inr (last_job st ! m)"
    and i3: "py_index r job = Inr (r ! job)" and i4: "py_index p job = Inr (p ! job)"
    using d lp lr job m by (simp_all add: py_index_def decoder_dims_def)
  have fin: "(\<exists>c. and_then (py_add ar (max t (r ! job)) (p ! job))
                    (\<lambda>completion. Inr (max t (r ! job), completion)) = Inr c) \<or>
             and_then (py_add ar (max t (r ! job)) (p ! job))
                    (\<lambda>completion. Inr (max t (r ! job), completion)) = Inl OverflowError" for t
    using py_add_cases[of ar "max t (r ! job)" "p ! job"] by (auto simp: and_then_def)
  show ?thesis
  proof (cases "last_job st ! m")
    case None
    then have "candidate ar p r s st job m =
        and_then (py_add ar (max (machine_time st ! m) (r ! job)) (p ! job))
          (\<lambda>completion. Inr (max (machine_time st ! m) (r ! job), completion))"
      using i1 i2 i3 i4 by (simp add: candidate_def and_then_def)
    with fin show ?thesis by simp
  next
    case (Some l)
    with d m have l: "l < n" by (auto simp: decoder_dims_def split: option.splits)
    then have row: "length (s ! l) = n" using rows ls by simp
    have i5: "py_index s l = Inr (s ! l)" and i6: "py_index (s ! l) job = Inr (s ! l ! job)"
      using l ls row job by (simp_all add: py_index_def)
    from py_add_cases[of ar "machine_time st ! m" "setup_value ar (s ! l ! job)"]
    show ?thesis
    proof
      assume "\<exists>t. py_add ar (machine_time st ! m) (setup_value ar (s ! l ! job)) = Inr t"
      then obtain t where "py_add ar (machine_time st ! m) (setup_value ar (s ! l ! job)) = Inr t" ..
      then have "candidate ar p r s st job m =
        and_then (py_add ar (max t (r ! job)) (p ! job))
          (\<lambda>completion. Inr (max t (r ! job), completion))"
        using Some i1 i2 i3 i4 i5 i6 by (simp add: candidate_def and_then_def)
      with fin show ?thesis by simp
    next
      assume "py_add ar (machine_time st ! m) (setup_value ar (s ! l ! job)) = Inl OverflowError"
      then have "candidate ar p r s st job m = Inl OverflowError"
        using Some i1 i2 i5 i6 by (simp add: candidate_def and_then_def)
      then show ?thesis ..
    qed
  qed
qed

lemma scan_machines_outcome:
  "\<forall>m\<in>set ms. (\<exists>c. candidate ar p r s st job m = Inr c) \<or>
               candidate ar p r s st job m = Inl OverflowError \<Longrightarrow>
   (\<exists>res. scan_machines ar p r s st job ms cur = Inr res) \<or>
   (scan_machines ar p r s st job ms cur = Inl OverflowError \<and>
    (\<exists>m\<in>set ms. candidate ar p r s st job m = Inl OverflowError))"
proof (induction ms arbitrary: cur)
  case Nil
  have "scan_machines ar p r s st job [] cur = Inr cur" by simp
  then show ?case by blast
next
  case (Cons m ms)
  from Cons.prems have rest: "\<forall>m\<in>set ms. (\<exists>c. candidate ar p r s st job m = Inr c) \<or>
               candidate ar p r s st job m = Inl OverflowError" by simp
  from Cons.prems have "(\<exists>c. candidate ar p r s st job m = Inr c) \<or>
               candidate ar p r s st job m = Inl OverflowError" by simp
  then show ?case
  proof
    assume "\<exists>c. candidate ar p r s st job m = Inr c"
    then obtain a f where c: "candidate ar p r s st job m = Inr (a, f)" by auto
    let ?cur' = "case cur of (best_machine, best_start, best_completion) \<Rightarrow>
            if f < best_completion then (Some m, a, f)
            else (best_machine, best_start, best_completion)"
    have e: "scan_machines ar p r s st job (m # ms) cur = scan_machines ar p r s st job ms ?cur'"
      using c by (simp add: and_then_def)
    from Cons.IH[OF rest, of ?cur'] show ?thesis unfolding e by auto
  next
    assume c: "candidate ar p r s st job m = Inl OverflowError"
    then have "scan_machines ar p r s st job (m # ms) cur = Inl OverflowError"
      by (simp add: and_then_def)
    with c show ?thesis by simp
  qed
qed

lemma place_job_outcome:
  assumes d: "decoder_dims n_machines n st"
    and lp: "length p = n" and lr: "length r = n" and ls: "length s = n"
    and rows: "\<forall>row\<in>set s. length row = n"
    and job: "job < n"
  shows "(\<exists>st'. place_job ar n_machines p r s st job = Inr st' \<and> decoder_dims n_machines n st') \<or>
         (overflows ar n_machines p r s st job \<and>
          (place_job ar n_machines p r s st job = Inl OverflowError \<or>
           place_job ar n_machines p r s st job = Inl TypeError))"
proof -
  have cands: "\<forall>m\<in>set [0..<n_machines]. (\<exists>c. candidate ar p r s st job m = Inr c) \<or>
               candidate ar p r s st job m = Inl OverflowError"
    using candidate_outcome[OF d lp lr ls rows job] by simp
  from scan_machines_outcome[OF cands, of "(None, num_zero ar, num_inf ar)"]
  show ?thesis
  proof
    assume "scan_machines ar p r s st job [0..<n_machines] (None, num_zero ar, num_inf ar) =
              Inl OverflowError \<and>
            (\<exists>m\<in>set [0..<n_machines]. candidate ar p r s st job m = Inl OverflowError)"
    then have "place_job ar n_machines p r s st job = Inl OverflowError"
      and "overflows ar n_machines p r s st job"
      by (auto simp: place_job_def and_then_def overflows_def list_ex_iff)
    then show ?thesis by simp
  next
    assume "\<exists>res. scan_machines ar p r s st job [0..<n_machines]
                    (None, num_zero ar, num_inf ar) = Inr res"
    then obtain res where sc: "scan_machines ar p r s st job [0..<n_machines]
                    (None, num_zero ar, num_inf ar) = Inr res" ..
    from scan_all_machines[OF sc] show ?thesis
    proof
      assume none: "res = (None, num_zero ar, num_inf ar) \<and>
          (\<forall>m<n_machines. \<exists>a f. candidate ar p r s st job m = Inr (a, f) \<and> \<not> f < num_inf ar)"
      then have "place_job ar n_machines p r s st job = Inl TypeError"
        using sc by (simp add: place_job_def and_then_def)
      moreover have "list_all (\<lambda>m. case candidate ar p r s st job m of
                       Inl e \<Rightarrow> False
                     | Inr (a, f) \<Rightarrow> \<not> f < num_inf ar) [0..<n_machines]"
        unfolding list_all_iff
      proof
        fix m assume "m \<in> set [0..<n_machines]"
        then have "m < n_machines" by simp
        with none obtain a f where "candidate ar p r s st job m = Inr (a, f)"
          "\<not> f < num_inf ar" by blast
        then show "case candidate ar p r s st job m of
                       Inl e \<Rightarrow> False
                     | Inr (a, f) \<Rightarrow> \<not> f < num_inf ar" by simp
      qed
      then have "overflows ar n_machines p r s st job" by (simp add: overflows_def)
      ultimately show ?thesis by simp
    next
      assume "\<exists>bm a f. res = (Some bm, a, f) \<and> bm < n_machines \<and>
            candidate ar p r s st job bm = Inr (a, f) \<and> f < num_inf ar \<and>
            (\<forall>m<n_machines. \<exists>a' f'. candidate ar p r s st job m = Inr (a', f') \<and>
                f \<le> f' \<and> (m < bm \<longrightarrow> f < f'))"
      then obtain bm a f where res: "res = (Some bm, a, f)" and bm: "bm < n_machines" by blast
      let ?st' = "\<lparr>machine_time = (machine_time st)[bm := f],
                  last_job = (last_job st)[bm := Some job],
                  completion_times = (completion_times st)[job := f],
                  schedule = (schedule st)[bm := schedule st ! bm @ [(job, a, f)]]\<rparr>"
      have "place_job ar n_machines p r s st job = Inr ?st'"
        using sc res bm d job by (simp add: place_job_def and_then_def decoder_dims_def)
      moreover have "decoder_dims n_machines n ?st'"
      proof -
        have "case (last_job st)[bm := Some job] ! m of None \<Rightarrow> True | Some l \<Rightarrow> l < n"
          if "m < n_machines" for m
        proof (cases "m = bm")
          case True
          then show ?thesis using bm d job by (simp add: decoder_dims_def)
        next
          case False
          then have "bm \<noteq> m" by simp
          moreover from d that have "case last_job st ! m of None \<Rightarrow> True | Some l \<Rightarrow> l < n"
            by (simp add: decoder_dims_def)
          ultimately show ?thesis by simp
        qed
        then show ?thesis using d by (simp add: decoder_dims_def)
      qed
      ultimately show ?thesis by blast
    qed
  qed
qed

lemma decode_loop_outcome:
  assumes lp: "length p = n" and lr: "length r = n" and ls: "length s = n"
    and rows: "\<forall>row\<in>set s. length row = n"
  shows "decoder_dims n_machines n st \<Longrightarrow> \<forall>job\<in>set jobs. job < n \<Longrightarrow>
         (\<exists>st'. decode_loop ar n_machines p r s jobs st = Inr st' \<and>
                decoder_dims n_machines n st') \<or>
         (\<exists>i<length jobs. \<exists>sti.
             decode_loop ar n_machines p r s (take i jobs) st = Inr sti \<and>
             overflows ar n_machines p r s sti (jobs ! i) \<and>
             (decode_loop ar n_machines p r s jobs st = Inl OverflowError \<or>
              decode_loop ar n_machines p r s jobs st = Inl TypeError))"
proof (induction jobs arbitrary: st)
  case Nil
  then show ?case by simp
next
  case (Cons job jobs)
  then have job: "job < n" and rest: "\<forall>job\<in>set jobs. job < n" by simp_all
  from place_job_outcome[OF Cons.prems(1) lp lr ls rows job, of ar]
  show ?case
  proof
    assume "\<exists>st'. place_job ar n_machines p r s st job = Inr st' \<and> decoder_dims n_machines n st'"
    then obtain st1 where pl: "place_job ar n_machines p r s st job = Inr st1"
      and d1: "decoder_dims n_machines n st1" by blast
    have e: "decode_loop ar n_machines p r s (job # js) st = decode_loop ar n_machines p r s js st1"
      for js using pl by (simp add: and_then_def)
    from Cons.IH[OF d1 rest] show ?thesis
    proof
      assume "\<exists>st'. decode_loop ar n_machines p r s jobs st1 = Inr st' \<and>
                decoder_dims n_machines n st'"
      then show ?thesis using e by simp
    next
      assume "\<exists>i<length jobs. \<exists>sti.
             decode_loop ar n_machines p r s (take i jobs) st1 = Inr sti \<and>
             overflows ar n_machines p r s sti (jobs ! i) \<and>
             (decode_loop ar n_machines p r s jobs st1 = Inl OverflowError \<or>
              decode_loop ar n_machines p r s jobs st1 = Inl TypeError)"
      then obtain i sti where i: "i < length jobs"
        and t: "decode_loop ar n_machines p r s (take i jobs) st1 = Inr sti"
        and o: "overflows ar n_machines p r s sti (jobs ! i)"
        and f: "decode_loop ar n_machines p r s jobs st1 = Inl OverflowError \<or>
              decode_loop ar n_machines p r s jobs st1 = Inl TypeError" by blast
      have "Suc i < length (job # jobs)" using i by simp
      moreover have "decode_loop ar n_machines p r s (take (Suc i) (job # jobs)) st = Inr sti"
        using t e by simp
      moreover have "overflows ar n_machines p r s sti ((job # jobs) ! Suc i)" using o by simp
      moreover have "decode_loop ar n_machines p r s (job # jobs) st = Inl OverflowError \<or>
              decode_loop ar n_machines p r s (job # jobs) st = Inl TypeError"
        using f e by simp
      ultimately show ?thesis by blast
    qed
  next
    assume a: "overflows ar n_machines p r s st job \<and>
          (place_job ar n_machines p r s st job = Inl OverflowError \<or>
           place_job ar n_machines p r s st job = Inl TypeError)"
    have "0 < length (job # jobs)" by simp
    moreover have "decode_loop ar n_machines p r s (take 0 (job # jobs)) st = Inr st" by simp
    moreover have "overflows ar n_machines p r s st ((job # jobs) ! 0)" using a by simp
    moreover have "decode_loop ar n_machines p r s (job # jobs) st = Inl OverflowError \<or>
              decode_loop ar n_machines p r s (job # jobs) st = Inl TypeError"
      using a by (auto simp: and_then_def)
    ultimately show ?thesis by blast
  qed
qed

lemma init_state_dims: "decoder_dims n_machines n (init_state ar n_machines n)"
  by (simp add: decoder_dims_def init_state_def)

lemma is_permutation_set: "is_permutation n order \<Longrightarrow> set order = {0..<n}"
  unfolding is_permutation_def by (metis mset_eq_setD atLeastLessThan_upt)

lemma is_permutation_length: "is_permutation n order \<Longrightarrow> length order = n"
  unfolding is_permutation_def by (metis mset_eq_length length_upt diff_zero)

lemma well_formed_dims:
  assumes "well_formed ar n n_machines p r s"
  shows "1 \<le> n_machines" "length p = n" "length r = n" "length s = n"
    "\<forall>row\<in>set s. length row = n"
  using assms by (simp_all add: well_formed_def list_all_iff)

lemma decode_schedule_outcome:
  assumes wf: "well_formed ar n n_machines p r s"
    and perm: "is_permutation n order" and n: "1 \<le> n"
  shows "(\<exists>makespan sched. decode_schedule ar order n_machines p r s = Inr (makespan, sched)) \<or>
         (\<exists>i<n. \<exists>st.
             decode_loop ar n_machines p r s (take i order) (init_state ar n_machines n) = Inr st \<and>
             overflows ar n_machines p r s st (order ! i) \<and>
             (decode_schedule ar order n_machines p r s = Inl OverflowError \<or>
              decode_schedule ar order n_machines p r s = Inl TypeError))"
proof -
  note dims = well_formed_dims[OF wf]
  have len: "length order = n" using perm by (rule is_permutation_length)
  have jobs: "\<forall>job\<in>set order. job < n" using is_permutation_set[OF perm] by simp
  from decode_loop_outcome[OF dims(2) dims(3) dims(4) dims(5) init_state_dims jobs, of ar]
  show ?thesis
  proof
    assume "\<exists>st'. decode_loop ar n_machines p r s order (init_state ar n_machines n) = Inr st' \<and>
                decoder_dims n_machines n st'"
    then obtain st where l: "decode_loop ar n_machines p r s order (init_state ar n_machines n) = Inr st"
      and d: "decoder_dims n_machines n st" by blast
    from d n obtain c cs where "completion_times st = c # cs"
      by (cases "completion_times st") (auto simp: decoder_dims_def)
    then have "py_max (completion_times st) = Inr (fold max cs c)" by (simp add: py_max_def)
    with l len have "\<exists>makespan sched. decode_schedule ar order n_machines p r s =
                       Inr (makespan, sched)"
      by (simp add: decode_schedule_def and_then_def)
    then show ?thesis ..
  next
    assume "\<exists>i<length order. \<exists>sti.
             decode_loop ar n_machines p r s (take i order) (init_state ar n_machines n) = Inr sti \<and>
             overflows ar n_machines p r s sti (order ! i) \<and>
             (decode_loop ar n_machines p r s order (init_state ar n_machines n) = Inl OverflowError \<or>
              decode_loop ar n_machines p r s order (init_state ar n_machines n) = Inl TypeError)"
    then obtain i sti where "i < n"
      "decode_loop ar n_machines p r s (take i order) (init_state ar n_machines n) = Inr sti"
      "overflows ar n_machines p r s sti (order ! i)"
      and f: "decode_loop ar n_machines p r s order (init_state ar n_machines n) = Inl OverflowError \<or>
              decode_loop ar n_machines p r s order (init_state ar n_machines n) = Inl TypeError"
      using len by auto
    moreover from f have "decode_schedule ar order n_machines p r s = Inl OverflowError \<or>
              decode_schedule ar order n_machines p r s = Inl TypeError"
      using len by (auto simp: decode_schedule_def and_then_def)
    ultimately show ?thesis by blast
  qed
qed

section \<open>Claims on the decoder\<close>





text \<open>
  Claim C3, as amended (the decoder fails only without jobs or on overflow). For any
  arithmetic, a well-formed instance with at least one job and a permutation ordering of
  its jobs, \<open>decode_schedule\<close> returns a makespan and a schedule, unless the arithmetic
  overflows at some job of the ordering, in the state the decoder has reached after the
  jobs before it: an addition of a candidate raises OverflowError, or no machine has a
  candidate finish below \<^verbatim>\<open>inf\<close>; then the decoder raises OverflowError or
  TypeError, and it raises nothing else. On the empty ordering it raises ValueError.
\<close>

theorem decode_schedule_returns_unless_overflow:
  assumes "well_formed ar n n_machines p r s" and "is_permutation n order" and "1 \<le> n"
  shows "((\<exists>makespan sched. decode_schedule ar order n_machines p r s = Inr (makespan, sched)) \<or>
          (\<exists>i<n. \<exists>st.
              decode_loop ar n_machines p r s (take i order) (init_state ar n_machines n) = Inr st \<and>
              overflows ar n_machines p r s st (order ! i) \<and>
              (decode_schedule ar order n_machines p r s = Inl OverflowError \<or>
               decode_schedule ar order n_machines p r s = Inl TypeError))) \<and>
         decode_schedule ar [] n_machines p r s = Inl ValueError"
proof
  from assms
  show "(\<exists>makespan sched. decode_schedule ar order n_machines p r s = Inr (makespan, sched)) \<or>
          (\<exists>i<n. \<exists>st.
              decode_loop ar n_machines p r s (take i order) (init_state ar n_machines n) = Inr st \<and>
              overflows ar n_machines p r s st (order ! i) \<and>
              (decode_schedule ar order n_machines p r s = Inl OverflowError \<or>
               decode_schedule ar order n_machines p r s = Inl TypeError))"
    by (rule decode_schedule_outcome)
  show "decode_schedule ar [] n_machines p r s = Inl ValueError"
    by (simp add: decode_schedule_def init_state_def and_then_def py_max_def)
qed

text \<open>
  The theorem at one job on one machine, where the decoder returns, and at the job of
  ready time and processing time \<open>2 ^ 1023\<close>, where it raises TypeError.
\<close>

theorem decode_schedule_returns_unless_overflow_witness:
  "well_formed double_arith 1 1 [5] [0] [[Some 0]] \<and> is_permutation 1 [0] \<and> (1::nat) \<le> 1 \<and>
   (((\<exists>makespan sched. decode_schedule double_arith [0] 1 [5] [0] [[Some 0]] =
        Inr (makespan, sched)) \<or>
     (\<exists>i<1. \<exists>st.
        decode_loop double_arith 1 [5] [0] [[Some 0]] (take i [0]) (init_state double_arith 1 1) =
          Inr st \<and>
        overflows double_arith 1 [5] [0] [[Some 0]] st ([0] ! i) \<and>
        (decode_schedule double_arith [0] 1 [5] [0] [[Some 0]] = Inl OverflowError \<or>
         decode_schedule double_arith [0] 1 [5] [0] [[Some 0]] = Inl TypeError))) \<and>
    decode_schedule double_arith [] 1 [5] [0] [[Some 0]] = Inl ValueError) \<and>
   decode_schedule double_arith [0] 1 [5] [0] [[Some 0]] = Inr (5, [[(0, 0, 5)]]) \<and>
   well_formed double_arith 1 1 [overflow_bound / 2] [overflow_bound / 2] [[None]] \<and>
   (\<exists>i<1. \<exists>st.
      decode_loop double_arith 1 [overflow_bound / 2] [overflow_bound / 2] [[None]] (take i [0])
        (init_state double_arith 1 1) = Inr st \<and>
      overflows double_arith 1 [overflow_bound / 2] [overflow_bound / 2] [[None]] st ([0] ! i)) \<and>
   decode_schedule double_arith [0] 1 [overflow_bound / 2] [overflow_bound / 2] [[None]] =
     Inl TypeError"
proof -
  have wf: "well_formed double_arith 1 1 [5] [0] [[Some 0]]"
    by (simp add: well_formed_def is_time_def double_arith_def overflow_bound_def)
  have perm: "is_permutation 1 [0]"
    by (simp add: is_permutation_def)
  have n: "(1::nat) \<le> 1" by simp
  have run: "decode_schedule double_arith [0] 1 [5] [0] [[Some 0]] = Inr (5, [[(0, 0, 5)]])"
    by code_simp
  note t = decode_schedule_returns_unless_overflow[OF wf perm n]
  have wf': "well_formed double_arith 1 1 [overflow_bound / 2] [overflow_bound / 2] [[None]]"
    by (simp add: well_formed_def is_time_def double_arith_def overflow_bound_def)
  have run': "decode_schedule double_arith [0] 1 [overflow_bound / 2] [overflow_bound / 2]
      [[None]] = Inl TypeError"
    by (simp add: decode_schedule_def init_state_def place_job_def candidate_def and_then_def
        py_index_def py_max_def setup_value_def py_add_def raise_overflow_def double_arith_def)
  from decode_schedule_returns_unless_overflow[OF wf' perm n] run'
  have ov: "\<exists>i<1. \<exists>st.
      decode_loop double_arith 1 [overflow_bound / 2] [overflow_bound / 2] [[None]] (take i [0])
        (init_state double_arith 1 1) = Inr st \<and>
      overflows double_arith 1 [overflow_bound / 2] [overflow_bound / 2] [[None]] st ([0] ! i)"
    by auto
  show ?thesis
    by (intro conjI) (rule wf, rule perm, rule n, rule t[THEN conjunct1], rule t[THEN conjunct2],
        rule run, rule wf', rule ov, rule run')
qed

text \<open>
  Claim C3 as stated fails twice. For \<open>n_jobs = 0\<close> the list of completion times is
  empty and \<^verbatim>\<open>max(completion_times)\<close> raises ValueError; no makespan 0 is returned.
  For one job of ready time and processing time \<open>2 ^ 1023\<close> the completion time is
  \<^verbatim>\<open>inf\<close>, no machine is chosen, and \<^verbatim>\<open>machine_time[None]\<close> is a TypeError.
\<close>

theorem decode_schedule_raises_counterexample:
  "well_formed double_arith 0 1 [] [] [] \<and> is_permutation 0 [] \<and>
   decode_schedule double_arith [] 1 [] [] [] = Inl ValueError \<and>
   well_formed double_arith 1 1 [overflow_bound / 2] [overflow_bound / 2] [[None]] \<and>
   is_permutation 1 [0] \<and>
   decode_schedule double_arith [0] 1 [overflow_bound / 2] [overflow_bound / 2] [[None]] =
     Inl TypeError"
proof -
  have "decode_schedule double_arith [] 1 [] [] [] = Inl ValueError"
    by (simp add: decode_schedule_def init_state_def and_then_def py_max_def)
  moreover have "decode_schedule double_arith [0] 1 [overflow_bound / 2] [overflow_bound / 2]
      [[None]] = Inl TypeError"
    by (simp add: decode_schedule_def init_state_def place_job_def candidate_def and_then_def
        py_index_def py_max_def setup_value_def py_add_def raise_overflow_def double_arith_def)
  moreover have "well_formed double_arith 1 1 [overflow_bound / 2] [overflow_bound / 2] [[None]]"
    by (simp add: well_formed_def is_time_def double_arith_def overflow_bound_def)
  moreover have "well_formed double_arith 0 1 [] [] []" by (simp add: well_formed_def)
  moreover have "is_permutation 0 []" "is_permutation 1 [0]" by (simp_all add: is_permutation_def)
  ultimately show ?thesis by blast
qed

section \<open>Claims on the lower bound\<close>

text \<open>
  Claim C1 (lower bound soundness) fails on the code. Two jobs of processing time 1, two
  machines, ready times 0, setup 10 either way: the decoder puts each job on its own
  machine and the makespan is 1, while \<open>calcular_ddlb\<close> returns 11, the critical-path
  term \<open>r[i] + p[i] + delta[i]\<close> charging an outgoing setup that no job pays.
\<close>

theorem ddlb_exceeds_achieved_makespan:
  "well_formed double_arith 2 2 [1, 1] [0, 0] [[None, Some 10], [Some 10, None]] \<and>
   is_permutation 2 [0, 1] \<and>
   decode_schedule double_arith [0, 1] 2 [1, 1] [0, 0] [[None, Some 10], [Some 10, None]] =
     Inr (1, [[(0, 0, 1)], [(1, 0, 1)]]) \<and>
   calcular_ddlb double_arith 2 2 [1, 1] [[None, Some 10], [Some 10, None]] [0, 0] = Inr 11"
proof -
  have "calcular_ddlb double_arith 2 2 [1, 1] [[None, Some 10], [Some 10, None]] [0, 0] = Inr 11"
    by code_simp
  moreover have "decode_schedule double_arith [0, 1] 2 [1, 1] [0, 0]
      [[None, Some 10], [Some 10, None]] = Inr (1, [[(0, 0, 1)], [(1, 0, 1)]])"
    by code_simp
  moreover have "well_formed double_arith 2 2 [1, 1] [0, 0] [[None, Some 10], [Some 10, None]]"
    by (simp add: well_formed_def is_time_def double_arith_def overflow_bound_def)
  moreover have "is_permutation 2 [0, 1]"
    by (simp add: is_permutation_def upt_rec numeral_2_eq_2)
  ultimately show ?thesis by blast
qed

section \<open>Lemmas on the lower bound\<close>

lemma ok_or_overflow_Inr: "ok_or_overflow (Inr v)"
  by (simp add: ok_or_overflow_def)

lemma ok_or_overflow_and_then:
  "ok_or_overflow x \<Longrightarrow> (\<And>v. x = Inr v \<Longrightarrow> ok_or_overflow (f v)) \<Longrightarrow>
   ok_or_overflow (and_then x f)"
  by (auto simp: ok_or_overflow_def and_then_def)

lemma ok_or_overflow_raise: "ok_or_overflow (raise_overflow x)"
  by (simp add: ok_or_overflow_def raise_overflow_def split: option.splits)

lemma ok_or_overflow_add: "ok_or_overflow (py_add ar a b)"
  by (simp add: py_add_def ok_or_overflow_raise)

lemma ok_or_overflow_sub: "ok_or_overflow (py_sub ar a b)"
  by (simp add: py_sub_def ok_or_overflow_raise)

lemma ok_or_overflow_div: "n \<noteq> 0 \<Longrightarrow> ok_or_overflow (py_div ar a n)"
  by (simp add: py_div_def ok_or_overflow_raise)

lemma ok_or_overflow_sum_from: "ok_or_overflow (sum_from ar xs acc)"
proof (induction xs arbitrary: acc)
  case Nil
  then show ?case by (simp add: ok_or_overflow_Inr)
next
  case (Cons x xs)
  show ?case
    unfolding sum_from.simps
    by (rule ok_or_overflow_and_then[OF ok_or_overflow_add]) (rule Cons.IH)
qed

lemma ok_or_overflow_sum: "ok_or_overflow (py_sum ar xs)"
  by (simp add: py_sum_def ok_or_overflow_sum_from)

lemma ok_or_overflow_critical_path:
  "\<forall>i\<in>set is. i < length r \<and> i < length p \<and> i < length deltas \<Longrightarrow>
   ok_or_overflow (critical_path ar p r deltas is limite)"
proof (induction "is" arbitrary: limite)
  case Nil
  then show ?case by (simp add: ok_or_overflow_Inr)
next
  case (Cons i "is")
  then have i: "i < length r" "i < length p" "i < length deltas"
    and rest: "\<forall>i\<in>set is. i < length r \<and> i < length p \<and> i < length deltas" by simp_all
  have e: "critical_path ar p r deltas (i # is) limite =
     and_then (py_add ar (r ! i) (p ! i)) (\<lambda>rp.
     and_then (py_add ar rp (deltas ! i)) (\<lambda>caminho_i.
       critical_path ar p r deltas is (if caminho_i > limite then caminho_i else limite)))"
    using i by (simp add: py_index_def and_then_def)
  show ?case
    unfolding e
    by (intro ok_or_overflow_and_then ok_or_overflow_add Cons.IH[OF rest])
qed

lemma outgoing_setups_in_range:
  "i < length s \<Longrightarrow> \<forall>j\<in>set js. j < length (s ! i) \<Longrightarrow>
   outgoing_setups s i js =
     Inr (List.map_filter (\<lambda>j. if j \<noteq> i then s ! i ! j else None) js)"
proof (induction js)
  case Nil
  then show ?case by (simp add: map_filter_simps)
next
  case (Cons j js)
  then show ?case
    by (simp add: and_then_def py_index_def map_filter_simps split: option.splits)
qed

lemma map_filter_empty_iff: "List.map_filter f xs = [] \<longleftrightarrow> (\<forall>x\<in>set xs. f x = None)"
  by (induction xs) (auto simp: map_filter_simps split: option.splits)

lemma py_min_Inr: "xs \<noteq> [] \<Longrightarrow> \<exists>v. py_min xs = Inr v"
  by (cases xs) (simp_all add: py_min_def)

lemma compute_deltas_cases:
  assumes ls: "length s = n" and rows: "\<forall>row\<in>set s. length row = n"
  shows "\<forall>i\<in>set is. i < n \<Longrightarrow>
         (if \<exists>i\<in>set is. lacks_setup n s i
          then compute_deltas n s is = Inl ValueError
          else \<exists>ds. compute_deltas n s is = Inr ds \<and> length ds = length is)"
proof (induction "is")
  case Nil
  then show ?case by simp
next
  case (Cons i "is")
  then have i: "i < n" and rest: "\<forall>i\<in>set is. i < n" by simp_all
  have row: "length (s ! i) = n" using i ls rows by simp
  let ?outs = "List.map_filter (\<lambda>j. if j \<noteq> i then s ! i ! j else None) [0..<n]"
  have outs: "outgoing_setups s i [0..<n] = Inr ?outs"
    using i ls row by (intro outgoing_setups_in_range) simp_all
  have empty: "?outs = [] \<longleftrightarrow> lacks_setup n s i"
    by (auto simp: map_filter_empty_iff lacks_setup_def list_all_iff)
  show ?case
  proof (cases "lacks_setup n s i")
    case True
    then have "?outs = []" using empty by simp
    then have "compute_deltas n s (i # is) = Inl ValueError"
      using outs by (simp add: and_then_def py_min_def)
    with True show ?thesis by simp
  next
    case False
    then have "?outs \<noteq> []" using empty by simp
    from py_min_Inr[OF this] obtain v where v: "py_min ?outs = Inr v" ..
    show ?thesis
    proof (cases "\<exists>i\<in>set is. lacks_setup n s i")
      case True
      with Cons.IH[OF rest] have "compute_deltas n s is = Inl ValueError" by simp
      then have "compute_deltas n s (i # is) = Inl ValueError"
        using outs v by (simp add: and_then_def)
      with True show ?thesis by simp
    next
      case no: False
      with Cons.IH[OF rest] obtain ds where "compute_deltas n s is = Inr ds"
        "length ds = length is" by auto
      then have "compute_deltas n s (i # is) = Inr (v # ds) \<and> length (v # ds) = length (i # is)"
        using outs v by (simp add: and_then_def)
      with no False show ?thesis by auto
    qed
  qed
qed

text \<open>
  Claim C4, as amended (degenerate instances of the lower bound). \<open>calcular_ddlb\<close> has
  no special case. On a well-formed instance, for any arithmetic: with no job, the
  general computation returns 0 (given \<open>0 - 0 = 0\<close>, \<open>0 + 0 = 0\<close> and \<open>0 / n_machines = 0\<close>);
  if some job has no defined setup towards another job (as the only job of a one-job
  instance), \<^verbatim>\<open>min\<close> of an empty sequence raises ValueError and no fallback value is
  returned; otherwise a value is returned, unless a sum, the difference or the division
  raises OverflowError.
\<close>

theorem calcular_ddlb_degenerate:
  assumes wf: "well_formed ar n n_machines p r s"
  shows "(n = 0 \<and> num_sub ar (num_zero ar) (num_zero ar) = Some (num_zero ar) \<and>
          num_add ar (num_zero ar) (num_zero ar) = Some (num_zero ar) \<and>
          num_div ar (num_zero ar) n_machines = Some (num_zero ar) \<longrightarrow>
            calcular_ddlb ar n n_machines p s r = Inr (num_zero ar)) \<and>
         ((\<exists>i<n. lacks_setup n s i) \<longrightarrow> calcular_ddlb ar n n_machines p s r = Inl ValueError) \<and>
         (\<not> (\<exists>i<n. lacks_setup n s i) \<longrightarrow>
            (\<exists>v. calcular_ddlb ar n n_machines p s r = Inr v) \<or>
            calcular_ddlb ar n n_machines p s r = Inl OverflowError)"
proof -
  note dims = well_formed_dims[OF wf]
  have nm: "n_machines \<noteq> 0" using dims(1) by simp
  have rng: "\<forall>i\<in>set [0..<n]. i < n" by simp
  note cd = compute_deltas_cases[OF dims(4) dims(5) rng]
  have a: "calcular_ddlb ar n n_machines p s r = Inr (num_zero ar)"
    if "n = 0" "num_sub ar (num_zero ar) (num_zero ar) = Some (num_zero ar)"
      "num_add ar (num_zero ar) (num_zero ar) = Some (num_zero ar)"
      "num_div ar (num_zero ar) n_machines = Some (num_zero ar)"
    using that dims(2) nm
    by (simp add: calcular_ddlb_def and_then_def py_sum_def py_sub_def py_add_def py_div_def
        raise_overflow_def)
  have b: "calcular_ddlb ar n n_machines p s r = Inl ValueError" if "\<exists>i<n. lacks_setup n s i"
  proof -
    from that have "\<exists>i\<in>set [0..<n]. lacks_setup n s i" by auto
    with cd have "compute_deltas n s [0..<n] = Inl ValueError" by simp
    then show ?thesis by (simp add: calcular_ddlb_def and_then_def)
  qed
  have c: "(\<exists>v. calcular_ddlb ar n n_machines p s r = Inr v) \<or>
            calcular_ddlb ar n n_machines p s r = Inl OverflowError"
    if "\<not> (\<exists>i<n. lacks_setup n s i)"
  proof -
    from that have "\<not> (\<exists>i\<in>set [0..<n]. lacks_setup n s i)" by auto
    with cd obtain ds where ds: "compute_deltas n s [0..<n] = Inr ds" and len: "length ds = n"
      by auto
    have idx: "\<forall>i\<in>set [0..<n]. i < length r \<and> i < length p \<and> i < length ds"
      using dims(2) dims(3) len by simp
    have e: "calcular_ddlb ar n n_machines p s r =
       and_then (py_sum ar p) (\<lambda>soma_p.
       and_then (py_sum ar ds) (\<lambda>soma_deltas.
       and_then (py_sum ar (take n_machines (rev (sort ds)))) (\<lambda>soma_maiores.
       and_then (py_sub ar soma_deltas soma_maiores) (\<lambda>setup_total_minimo.
       and_then (py_add ar soma_p setup_total_minimo) (\<lambda>carga.
       and_then (py_div ar carga n_machines) (\<lambda>limite_carga_trabalho.
       and_then (critical_path ar p r ds [0..<n] (num_zero ar)) (\<lambda>limite_caminho_critico.
         Inr (max limite_carga_trabalho limite_caminho_critico))))))))"
      using ds by (simp add: calcular_ddlb_def and_then_def)
    have "ok_or_overflow (calcular_ddlb ar n n_machines p s r)"
      unfolding e
      by (intro ok_or_overflow_and_then ok_or_overflow_sum ok_or_overflow_sub ok_or_overflow_add
          ok_or_overflow_div[OF nm] ok_or_overflow_critical_path[OF idx] ok_or_overflow_Inr)
    then show ?thesis by (simp add: ok_or_overflow_def)
  qed
  from a b c show ?thesis by blast
qed

text \<open>The theorem at the empty instance, at one job, and at two jobs with setups.\<close>

theorem calcular_ddlb_degenerate_witness:
  "well_formed double_arith 0 1 [] [] [] \<and> calcular_ddlb double_arith 0 1 [] [] [] = Inr 0 \<and>
   well_formed double_arith 1 1 [5] [0] [[None]] \<and> lacks_setup 1 [[None :: real option]] 0 \<and>
   calcular_ddlb double_arith 1 1 [5] [[None]] [0] = Inl ValueError \<and>
   well_formed double_arith 2 1 [1, 1] [0, 0] [[None, Some 10], [Some 10, None]] \<and>
   \<not> lacks_setup 2 [[None, Some (10 :: real)], [Some 10, None]] 0 \<and>
   \<not> lacks_setup 2 [[None, Some (10 :: real)], [Some 10, None]] 1 \<and>
   ((\<exists>v. calcular_ddlb double_arith 2 1 [1, 1] [[None, Some 10], [Some 10, None]] [0, 0] = Inr v) \<or>
    calcular_ddlb double_arith 2 1 [1, 1] [[None, Some 10], [Some 10, None]] [0, 0] =
      Inl OverflowError) \<and>
   calcular_ddlb double_arith 2 1 [1, 1] [[None, Some 10], [Some 10, None]] [0, 0] = Inr 12"
proof -
  have wf0: "well_formed double_arith 0 1 [] [] []" by (simp add: well_formed_def)
  have wf1: "well_formed double_arith 1 1 [5] [0] [[None]]"
    by (simp add: well_formed_def is_time_def double_arith_def overflow_bound_def)
  have wf2: "well_formed double_arith 2 1 [1, 1] [0, 0] [[None, Some 10], [Some 10, None]]"
    by (simp add: well_formed_def is_time_def double_arith_def overflow_bound_def)
  have l1: "lacks_setup 1 [[None :: real option]] 0" by (simp add: lacks_setup_def)
  have l2: "\<not> lacks_setup 2 [[None, Some (10 :: real)], [Some 10, None]] 0"
    "\<not> lacks_setup 2 [[None, Some (10 :: real)], [Some 10, None]] 1"
    by (simp_all add: lacks_setup_def upt_rec numeral_2_eq_2)
  have no: "\<not> (\<exists>i<2. lacks_setup 2 [[None, Some (10 :: real)], [Some 10, None]] i)"
  proof
    assume "\<exists>i<2. lacks_setup 2 [[None, Some (10 :: real)], [Some 10, None]] i"
    then obtain i :: nat where "i < 2"
      and l: "lacks_setup 2 [[None, Some (10 :: real)], [Some 10, None]] i"
      by blast
    then have "i = 0 \<or> i = 1" by arith
    with l l2 show False by blast
  qed
  have z: "num_sub double_arith (num_zero double_arith) (num_zero double_arith) =
             Some (num_zero double_arith)"
    "num_add double_arith (num_zero double_arith) (num_zero double_arith) =
             Some (num_zero double_arith)"
    "num_div double_arith (num_zero double_arith) 1 = Some (num_zero double_arith)"
    by (simp_all add: double_arith_def overflow_bound_def)
  have z0: "num_zero double_arith = 0" by (simp add: double_arith_def)
  from calcular_ddlb_degenerate[OF wf0] z
  have "calcular_ddlb double_arith 0 1 [] [] [] = Inr (num_zero double_arith)" by blast
  then have a: "calcular_ddlb double_arith 0 1 [] [] [] = Inr 0" using z0 by simp
  from calcular_ddlb_degenerate[OF wf1] l1
  have b: "calcular_ddlb double_arith 1 1 [5] [[None]] [0] = Inl ValueError" by auto
  from calcular_ddlb_degenerate[OF wf2] no
  have c: "(\<exists>v. calcular_ddlb double_arith 2 1 [1, 1] [[None, Some 10], [Some 10, None]] [0, 0] =
              Inr v) \<or>
    calcular_ddlb double_arith 2 1 [1, 1] [[None, Some 10], [Some 10, None]] [0, 0] =
      Inl OverflowError" by blast
  have d: "calcular_ddlb double_arith 2 1 [1, 1] [[None, Some 10], [Some 10, None]] [0, 0] =
      Inr 12" by code_simp
  from a b c d wf0 wf1 wf2 l1 l2 show ?thesis by blast
qed

text \<open>
  Claim C4 as stated fails: one job on one machine is a well-formed instance, and
  \<open>calcular_ddlb\<close> raises ValueError instead of returning a fallback value.
\<close>

theorem calcular_ddlb_single_job_counterexample:
  "well_formed double_arith 1 1 [5] [0] [[None]] \<and>
   calcular_ddlb double_arith 1 1 [5] [[None]] [0] = Inl ValueError"
proof -
  have "well_formed double_arith 1 1 [5] [0] [[None]]"
    by (simp add: well_formed_def is_time_def double_arith_def overflow_bound_def)
  moreover have "calcular_ddlb double_arith 1 1 [5] [[None]] [0] = Inl ValueError"
    by (simp add: calcular_ddlb_def and_then_def py_min_def)
  ultimately show ?thesis ..
qed

section \<open>Lemmas on crossover and mutation\<close>

lemma genes_of_update:
  assumes "i < length child" and "child ! i = None"
  shows "genes_of (child[i := Some g]) = insert g (genes_of child)"
proof -
  have "Some x \<in> set (child[i := Some g]) \<longleftrightarrow> x = g \<or> Some x \<in> set child" for x
  proof
    assume "Some x \<in> set (child[i := Some g])"
    moreover have "set (child[i := Some g]) \<subseteq> insert (Some g) (set child)"
      by (rule set_update_subset_insert)
    ultimately have "Some x \<in> insert (Some g) (set child)" by (rule subsetD[rotated])
    then show "x = g \<or> Some x \<in> set child" by simp
  next
    assume "x = g \<or> Some x \<in> set child"
    then show "Some x \<in> set (child[i := Some g])"
    proof
      assume "x = g"
      then show ?thesis using assms(1) by (simp add: set_update_memI)
    next
      assume "Some x \<in> set child"
      then obtain j where j: "j < length child" "child ! j = Some x"
        unfolding in_set_conv_nth by blast
      with assms(2) have "j \<noteq> i" by auto
      with j have "child[i := Some g] ! j = Some x" by simp
      moreover have "j < length (child[i := Some g])" using j(1) by simp
      ultimately show ?thesis unfolding in_set_conv_nth by blast
    qed
  qed
  then show ?thesis unfolding genes_of_def by blast
qed

lemma finite_genes_of: "finite (genes_of child)"
proof -
  have "genes_of child \<subseteq> the ` set child"
  proof
    fix x assume "x \<in> genes_of child"
    then have "Some x \<in> set child" by (simp add: genes_of_def)
    then have "the (Some x) \<in> the ` set child" by (rule imageI)
    then show "x \<in> the ` set child" by simp
  qed
  then show ?thesis by (rule finite_subset) simp
qed

lemma mod_shift_neq:
  fixes n :: nat
  assumes "0 < d" "d < n"
  shows "(pos + d) mod n \<noteq> pos mod n"
proof -
  let ?q = "pos mod n"
  have q: "?q < n" using assms by simp
  have e: "(pos + d) mod n = (?q + d) mod n" by (simp add: mod_add_left_eq)
  show ?thesis
  proof (cases "?q + d < n")
    case True
    then have "(?q + d) mod n = ?q + d" by simp
    with e assms show ?thesis by simp
  next
    case False
    then have "?q + d - n < n" using q assms by arith
    moreover have "(?q + d) mod n = (?q + d - n) mod n" using False by (simp add: le_mod_geq)
    ultimately have "(?q + d) mod n = ?q + d - n" by simp
    moreover have "?q + d - n \<noteq> ?q" using False assms by arith
    ultimately show ?thesis using e by simp
  qed
qed

lemma ox_step:
  assumes inv: "ox_inv n U child pos k" and n: "0 < n" and fin: "finite U" and cU: "card U = n"
    and g: "g \<in> U" and fresh: "Some g \<notin> set child"
    and p0: "pos0 = (if pos \<ge> n then 0 else pos)"
  shows "ox_inv n U (child[pos0 := Some g]) (pos0 + 1) (k - 1) \<and>
         genes_of (child[pos0 := Some g]) = insert g (genes_of child)"
proof -
  from inv have len: "length child = n" and pos: "pos \<le> n" and k: "k \<le> n"
    and none: "\<forall>i<n. (child ! i = None) = (\<exists>j<k. i = (pos + j) mod n)"
    and sub: "genes_of child \<subseteq> U" and card: "card (genes_of child) + k = n"
    by (simp_all add: ox_inv_def)
  have gS: "g \<notin> genes_of child" using fresh by (simp add: genes_of_def)
  have "genes_of child \<subset> U" using sub g gS by blast
  with fin have "card (genes_of child) < card U" by (rule psubset_card_mono)
  then have kpos: "0 < k" using card cU by arith
  have p0m: "pos0 = pos mod n" using pos n p0 by auto
  have p0n: "pos0 < n" using p0m n by simp
  have "\<exists>j<k. pos0 = (pos + j) mod n" using kpos p0m by (intro exI[of _ 0]) simp
  then have free: "child ! pos0 = None" using none p0n by simp
  have S': "genes_of (child[pos0 := Some g]) = insert g (genes_of child)"
    by (rule genes_of_update) (use len p0n free in simp_all)
  have "card (insert g (genes_of child)) = Suc (card (genes_of child))"
    using finite_genes_of gS by (rule card_insert_disjoint)
  then have card': "card (genes_of (child[pos0 := Some g])) + (k - 1) = n"
    using S' card kpos by simp
  have shift: "(pos0 + 1 + j) mod n = (pos + Suc j) mod n" for j
  proof -
    have "(pos mod n + Suc j) mod n = (pos + Suc j) mod n" by (rule mod_add_left_eq)
    then show ?thesis using p0m by simp
  qed
  have none': "(child[pos0 := Some g] ! i = None) = (\<exists>j<k - 1. i = (pos0 + 1 + j) mod n)"
    if i: "i < n" for i
  proof (cases "i = pos0")
    case True
    then have "child[pos0 := Some g] ! i \<noteq> None" using len p0n by simp
    moreover have "\<not> (\<exists>j<k - 1. i = (pos0 + 1 + j) mod n)"
    proof
      assume "\<exists>j<k - 1. i = (pos0 + 1 + j) mod n"
      then obtain j where j: "j < k - 1" "i = (pos0 + 1 + j) mod n" by blast
      then have "i = (pos + Suc j) mod n" using shift by simp
      moreover have "(pos + Suc j) mod n \<noteq> pos mod n"
      proof (rule mod_shift_neq)
        show "0 < Suc j" by simp
        show "Suc j < n" using j(1) k by arith
      qed
      ultimately show False using True p0m by simp
    qed
    ultimately show ?thesis by blast
  next
    case False
    then have "pos0 \<noteq> i" by simp
    then have "(child[pos0 := Some g] ! i = None) = (child ! i = None)" by simp
    also have "\<dots> = (\<exists>j<k. i = (pos + j) mod n)" using none i by simp
    also have "\<dots> = (\<exists>j<k - 1. i = (pos0 + 1 + j) mod n)"
    proof
      assume "\<exists>j<k. i = (pos + j) mod n"
      then obtain j where j: "j < k" "i = (pos + j) mod n" by blast
      have "j \<noteq> 0"
      proof
        assume "j = 0"
        with j have "i = pos mod n" by simp
        with False p0m show False by simp
      qed
      then obtain j' where j': "j = Suc j'" by (cases j) simp_all
      have "j' < k - 1" using j(1) j' by arith
      moreover have "i = (pos0 + 1 + j') mod n" using j(2) j' shift by simp
      ultimately show "\<exists>j<k - 1. i = (pos0 + 1 + j) mod n" by blast
    next
      assume "\<exists>j<k - 1. i = (pos0 + 1 + j) mod n"
      then obtain j where j: "j < k - 1" "i = (pos0 + 1 + j) mod n" by blast
      have "Suc j < k" using j(1) by arith
      moreover have "i = (pos + Suc j) mod n" using j(2) shift by simp
      ultimately show "\<exists>j<k. i = (pos + j) mod n" by blast
    qed
    finally show ?thesis .
  qed
  have "ox_inv n U (child[pos0 := Some g]) (pos0 + 1) (k - 1)"
    unfolding ox_inv_def
  proof (intro conjI)
    show "length (child[pos0 := Some g]) = n" using len by simp
    show "pos0 + 1 \<le> n" using p0n by simp
    show "k - 1 \<le> n" using k by simp
    show "\<forall>i<n. (child[pos0 := Some g] ! i = None) = (\<exists>j<k - 1. i = (pos0 + 1 + j) mod n)"
      using none' by blast
    show "genes_of (child[pos0 := Some g]) \<subseteq> U" using S' sub g by simp
    show "card (genes_of (child[pos0 := Some g])) + (k - 1) = n" by (rule card')
  qed
  with S' show ?thesis by simp
qed

lemma ox_fill_inv:
  assumes n: "0 < n" and fin: "finite U" and cU: "card U = n"
  shows "ox_inv n U child pos k \<Longrightarrow> set genes \<subseteq> U \<Longrightarrow>
         (\<exists>pos' k'. ox_inv n U (ox_fill n genes child pos) pos' k') \<and>
         genes_of child \<union> set genes \<subseteq> genes_of (ox_fill n genes child pos)"
proof (induction genes arbitrary: child pos k)
  case Nil
  then show ?case by auto
next
  case (Cons g genes)
  from Cons.prems(2) have g: "g \<in> U" and rest: "set genes \<subseteq> U" by simp_all
  show ?case
  proof (cases "Some g \<in> set child")
    case True
    then have e: "ox_fill n (g # genes) child pos = ox_fill n genes child pos" by simp
    have "g \<in> genes_of child" using True by (simp add: genes_of_def)
    with Cons.IH[OF Cons.prems(1) rest] show ?thesis unfolding e by auto
  next
    case False
    define pos0 where "pos0 = (if pos \<ge> n then 0 else pos)"
    have e: "ox_fill n (g # genes) child pos = ox_fill n genes (child[pos0 := Some g]) (pos0 + 1)"
      using False by (simp add: pos0_def Let_def)
    from ox_step[OF Cons.prems(1) n fin cU g False pos0_def]
    have inv': "ox_inv n U (child[pos0 := Some g]) (pos0 + 1) (k - 1)"
      and S': "genes_of (child[pos0 := Some g]) = insert g (genes_of child)" by simp_all
    from Cons.IH[OF inv' rest] S' show ?thesis unfolding e by auto
  qed
qed

lemma ox_initial:
  assumes ab: "a < b" and bn: "b < n" and len: "length p1 = n" and d: "distinct p1"
    and U: "set p1 = U"
  shows "ox_inv n U (take a (replicate n None) @ map Some (take (b - a) (drop a p1)) @
                      drop b (replicate n None)) b (n - (b - a))"
proof -
  define sl where "sl = take (b - a) (drop a p1)"
  define child where "child = replicate a None @ map Some sl @ replicate (n - b) (None :: nat option)"
  have e: "take a (replicate n None) @ map Some (take (b - a) (drop a p1)) @
             drop b (replicate n None) = child"
    using ab bn by (simp add: child_def sl_def min_def)
  have lsl: "length sl = b - a" using ab bn len by (simp add: sl_def)
  have lc: "length child = n" using ab bn lsl by (simp add: child_def)
  have dsl: "distinct sl" unfolding sl_def using d by (intro distinct_take distinct_drop)
  have ssl: "set sl \<subseteq> U"
  proof -
    have "set sl \<subseteq> set (drop a p1)" unfolding sl_def by (rule set_take_subset)
    also have "\<dots> \<subseteq> set p1" by (rule set_drop_subset)
    finally show ?thesis using U by simp
  qed
  have G: "genes_of child = set sl"
    by (auto simp: genes_of_def child_def)
  have card: "card (genes_of child) + (n - (b - a)) = n"
    using G distinct_card[OF dsl] lsl ab bn by simp
  have nth: "(child ! i = None) = (i < a \<or> b \<le> i)" if "i < n" for i
  proof -
    consider "i < a" | "a \<le> i" "i < b" | "b \<le> i" by linarith
    then show ?thesis
    proof cases
      case 1
      then show ?thesis by (simp add: child_def nth_append)
    next
      case 2
      then have "i - a < b - a" by arith
      with 2 have "child ! i = Some (sl ! (i - a))"
        using lsl by (simp add: child_def nth_append)
      with 2 show ?thesis by simp
    next
      case 3
      then have "child ! i = None"
        using lsl ab that by (simp add: child_def nth_append)
      with 3 show ?thesis by simp
    qed
  qed
  have none: "(child ! i = None) = (\<exists>j<n - (b - a). i = (b + j) mod n)" if i: "i < n" for i
  proof -
    have "(i < a \<or> b \<le> i) = (\<exists>j<n - (b - a). i = (b + j) mod n)"
    proof
      assume "i < a \<or> b \<le> i"
      then show "\<exists>j<n - (b - a). i = (b + j) mod n"
      proof
        assume ia: "i < a"
        have "n - b + i < n - (b - a)" using ia ab bn by arith
        moreover have "b + (n - b + i) = i + n" using bn by arith
        then have "(b + (n - b + i)) mod n = i" using i by simp
        ultimately show ?thesis by metis
      next
        assume bi: "b \<le> i"
        have "i - b < n - (b - a)" using bi i ab by arith
        moreover have "(b + (i - b)) mod n = i" using bi i by simp
        ultimately show ?thesis by metis
      qed
    next
      assume "\<exists>j<n - (b - a). i = (b + j) mod n"
      then obtain j where j: "j < n - (b - a)" "i = (b + j) mod n" by blast
      show "i < a \<or> b \<le> i"
      proof (cases "b + j < n")
        case True
        then have "i = b + j" using j(2) by simp
        then show ?thesis by simp
      next
        case False
        then have "b + j - n < n" using j(1) bn by arith
        moreover have "(b + j) mod n = (b + j - n) mod n" using False by (simp add: le_mod_geq)
        ultimately have "i = b + j - n" using j(2) by simp
        then have "i < a" using j(1) False ab bn by arith
        then show ?thesis by simp
      qed
    qed
    with nth[OF i] show ?thesis by simp
  qed
  have "ox_inv n U child b (n - (b - a))"
    unfolding ox_inv_def
  proof (intro conjI)
    show "length child = n" by (rule lc)
    show "b \<le> n" using bn by simp
    show "n - (b - a) \<le> n" by simp
    show "\<forall>i<n. (child ! i = None) = (\<exists>j<n - (b - a). i = (b + j) mod n)"
      using none by blast
    show "genes_of child \<subseteq> U" using G ssl by simp
    show "card (genes_of child) + (n - (b - a)) = n" by (rule card)
  qed
  then show ?thesis unfolding e .
qed

lemma is_permutation_distinct: "is_permutation n xs \<Longrightarrow> distinct xs"
  unfolding is_permutation_def by (metis distinct_upt mset_eq_imp_distinct_iff)

lemma is_permutationI:
  assumes "length ys = n" and "set ys = {0..<n}"
  shows "is_permutation n ys"
proof -
  have "card (set ys) = length ys" using assms by simp
  then have "distinct ys" by (rule card_distinct)
  moreover have "distinct [0..<n]" by simp
  moreover have "set ys = set [0..<n]" using assms(2) by simp
  ultimately have "mset ys = mset [0..<n]" by (simp only: set_eq_iff_mset_eq_distinct)
  then show ?thesis by (simp add: is_permutation_def)
qed

lemma ox_fill_permutation:
  assumes p1: "is_permutation n p1" and p2: "is_permutation n p2"
    and ab: "a < b" and bn: "b < n"
  shows "\<exists>ys. ox_fill n (drop b p2 @ take b p2)
                 (take a (replicate n None) @ map Some (take (b - a) (drop a p1)) @
                  drop b (replicate n None)) b = map Some ys \<and>
              is_permutation n ys"
proof -
  let ?U = "{0..<n}"
  let ?child0 = "take a (replicate n None) @ map Some (take (b - a) (drop a p1)) @
                  drop b (replicate n None)"
  let ?genes = "drop b p2 @ take b p2"
  let ?C = "ox_fill n ?genes ?child0 b"
  have n: "0 < n" using bn by simp
  have fin: "finite ?U" and cU: "card ?U = n" by simp_all
  have inv0: "ox_inv n ?U ?child0 b (n - (b - a))"
    using ab bn is_permutation_length[OF p1] is_permutation_distinct[OF p1]
      is_permutation_set[OF p1] by (rule ox_initial)
  have sg: "set ?genes = ?U"
  proof -
    have "set ?genes = set (drop b p2) \<union> set (take b p2)" by (simp only: set_append)
    also have "\<dots> = set (take b p2) \<union> set (drop b p2)" by (rule Un_commute)
    also have "\<dots> = set (take b p2 @ drop b p2)" by (simp only: set_append)
    also have "\<dots> = set p2" by (simp only: append_take_drop_id)
    finally show ?thesis using is_permutation_set[OF p2] by simp
  qed
  then have sub: "set ?genes \<subseteq> ?U" by simp
  from ox_fill_inv[OF n fin cU inv0 sub] obtain pos' k' where
    inv: "ox_inv n ?U ?C pos' k'" and grow: "genes_of ?child0 \<union> set ?genes \<subseteq> genes_of ?C"
    by blast
  from inv have len: "length ?C = n"
    and none: "\<forall>i<n. (?C ! i = None) = (\<exists>j<k'. i = (pos' + j) mod n)"
    and subU: "genes_of ?C \<subseteq> ?U" and card: "card (genes_of ?C) + k' = n"
    by (simp_all add: ox_inv_def)
  have G: "genes_of ?C = ?U" using grow subU sg by blast
  then have "k' = 0" using card by simp
  then have full: "\<forall>i<n. ?C ! i \<noteq> None" using none by simp
  define ys where "ys = map the ?C"
  have C: "?C = map Some ys"
  proof (rule nth_equalityI)
    show "length ?C = length (map Some ys)" by (simp add: ys_def)
    fix i assume "i < length ?C"
    then have "i < n" using len by simp
    with full have "?C ! i \<noteq> None" by simp
    then show "?C ! i = map Some ys ! i" using \<open>i < length ?C\<close> by (auto simp: ys_def)
  qed
  have "genes_of (map Some ys) = set ys" by (auto simp: genes_of_def)
  then have "set ys = ?U" using G C by simp
  moreover have "length ys = n" using len by (simp add: ys_def)
  ultimately have "is_permutation n ys" by (intro is_permutationI)
  with C show ?thesis by blast
qed

lemma randbelow_less: "0 < n \<Longrightarrow> fst (randbelow n g) < n"
  by (simp add: randbelow_def split: list.splits)

lemma sample_two:
  assumes "random_sample [0..<n] 2 g = Inr (cuts, g')"
  shows "2 \<le> n \<and> (\<exists>x y. cuts = [x, y] \<and> x \<noteq> y \<and> x < n \<and> y < n)"
proof -
  from assms have n2: "2 \<le> n" by (simp add: random_sample_def split: if_splits)
  obtain j0 g1 where r0: "randbelow n g = (j0, g1)" by (cases "randbelow n g")
  obtain j1 g2 where r1: "randbelow (n - 1) g1 = (j1, g2)" by (cases "randbelow (n - 1) g1")
  have j0: "j0 < n" using randbelow_less[of n g] r0 n2 by simp
  have j1: "j1 < n - 1" using randbelow_less[of "n - 1" g1] r1 n2 by simp
  have two: "[0..<nat 2] = [0, 1]" by (simp add: upt_rec)
  have "sample_loop n [0..<n] [0, 1] g =
          ([[0..<n] ! j0, ([0..<n][j0 := [0..<n] ! (n - 1)]) ! j1], g2)"
    using r0 r1 by simp
  with assms n2 two have cuts: "cuts = [[0..<n] ! j0, ([0..<n][j0 := [0..<n] ! (n - 1)]) ! j1]"
    by (simp add: random_sample_def)
  have x: "[0..<n] ! j0 = j0" using j0 by simp
  have y: "([0..<n][j0 := [0..<n] ! (n - 1)]) ! j1 = (if j1 = j0 then n - 1 else j1)"
    using j0 j1 by (simp add: nth_list_update)
  have "j0 \<noteq> (if j1 = j0 then n - 1 else j1)" using j1 by auto
  moreover have "(if j1 = j0 then n - 1 else j1) < n" using j1 n2 by auto
  ultimately show ?thesis using n2 cuts x y j0 by simp
qed

lemma random_sample_returns:
  "0 \<le> k \<Longrightarrow> k \<le> int (length xs) \<Longrightarrow> \<exists>ys g'. random_sample xs k g = Inr (ys, g')"
  by (simp add: random_sample_def)

lemma order_crossover_permutation:
  assumes p1: "is_permutation n p1" and p2: "is_permutation n p2"
    and oc: "order_crossover p1 p2 g = Inr (child, g')"
  shows "\<exists>ys. child = map Some ys \<and> is_permutation n ys"
proof -
  have len: "length p1 = n" using p1 by (rule is_permutation_length)
  from oc obtain cuts g1 where s: "random_sample [0..<n] 2 g = Inr (cuts, g1)"
    and c: "(case sort cuts of
          [a, b] \<Rightarrow>
            let child = replicate n None;
                child = take a child @ map Some (take (b - a) (drop a p1)) @ drop b child
            in Inr (ox_fill n (drop b p2 @ take b p2) child b, g1)
        | _ \<Rightarrow> Inl ValueError) = Inr (child, g')"
    by (auto simp: order_crossover_def len and_then_Inr)
  from sample_two[OF s] obtain x y where cuts: "cuts = [x, y]" and xy: "x \<noteq> y"
    and xn: "x < n" and yn: "y < n" by blast
  define a where "a = min x y"
  define b where "b = max x y"
  have srt: "sort cuts = [a, b]" using cuts by (auto simp: a_def b_def)
  have ab: "a < b" and bn: "b < n" using xy xn yn by (auto simp: a_def b_def)
  from c srt have "child = ox_fill n (drop b p2 @ take b p2)
                   (take a (replicate n None) @ map Some (take (b - a) (drop a p1)) @
                    drop b (replicate n None)) b"
    by (simp add: Let_def)
  with ox_fill_permutation[OF p1 p2 ab bn] show ?thesis by simp
qed

lemma order_crossover_returns:
  assumes "2 \<le> length p1"
  shows "\<exists>child g'. order_crossover p1 p2 g = Inr (child, g')"
proof -
  let ?n = "length p1"
  from assms have "\<exists>ys g'. random_sample [0..<?n] 2 g = Inr (ys, g')"
    by (intro random_sample_returns) simp_all
  then obtain cuts g' where s: "random_sample [0..<?n] 2 g = Inr (cuts, g')" by blast
  from sample_two[OF s] obtain x y where cuts: "cuts = [x, y]" by blast
  then obtain a b where "sort cuts = [a, b]" by (cases "x \<le> y") auto
  with s show ?thesis by (simp add: order_crossover_def Let_def and_then_def)
qed

lemma order_crossover_short:
  assumes "length p1 < 2"
  shows "order_crossover p1 p2 g = Inl ValueError"
  using assms by (simp add: order_crossover_def random_sample_def Let_def and_then_def)

lemma mset_swap_list: "i < length xs \<Longrightarrow> j < length xs \<Longrightarrow> mset (swap xs i j) = mset xs"
  unfolding swap_def by (simp add: mset_swap)

lemma length_swap: "length (swap xs i j) = length xs"
  by (simp add: swap_def)

lemma mutate_loop_mset:
  "length c = sz \<Longrightarrow> \<forall>i\<in>set is. i < sz \<Longrightarrow>
   mset (fst (mutate_loop sz rate is c g)) = mset c"
proof (induction "is" arbitrary: c g)
  case Nil
  then show ?case by simp
next
  case (Cons i "is")
  obtain u g1 where u: "random_random g = (u, g1)" by (cases "random_random g")
  obtain j g2 where j: "randbelow sz g1 = (j, g2)" by (cases "randbelow sz g1")
  from Cons.prems have i: "i < sz" and rest: "\<forall>i\<in>set is. i < sz" by simp_all
  have jl: "j < sz" using randbelow_less[of sz g1] j i by simp
  show ?case
  proof (cases "u < rate")
    case True
    have "length (swap c i j) = sz" using Cons.prems(1) by (simp add: length_swap)
    from Cons.IH[OF this rest]
    have "mset (fst (mutate_loop sz rate is (swap c i j) g2)) = mset (swap c i j)" .
    also have "\<dots> = mset c" using i jl Cons.prems(1) by (simp add: mset_swap_list)
    finally show ?thesis using u j True by simp
  next
    case False
    with Cons.IH[OF Cons.prems(1) rest] u show ?thesis by simp
  qed
qed

lemma mutate_swap_mset: "mset (fst (mutate_swap c rate g)) = mset c"
  unfolding mutate_swap_def by (rule mutate_loop_mset) simp_all

lemma shuffle_loop_mset:
  "k < length xs \<Longrightarrow> mset (fst (shuffle_loop k xs g)) = mset xs"
proof (induction k arbitrary: xs g)
  case 0
  then show ?case by simp
next
  case (Suc k)
  obtain j g' where j: "randbelow (Suc (Suc k)) g = (j, g')"
    by (cases "randbelow (Suc (Suc k)) g")
  have jl: "j < Suc (Suc k)" using randbelow_less[of "Suc (Suc k)" g] j by simp
  then have jx: "j < length xs" using Suc.prems by simp
  have "k < length (swap xs (Suc k) j)" using Suc.prems by (simp add: length_swap)
  from Suc.IH[OF this]
  have "mset (fst (shuffle_loop k (swap xs (Suc k) j) g')) = mset (swap xs (Suc k) j)" .
  also have "\<dots> = mset xs" using Suc.prems jx by (simp add: mset_swap_list)
  finally show ?case using j by simp
qed

lemma random_shuffle_mset: "mset (fst (random_shuffle xs g)) = mset xs"
proof (cases xs)
  case Nil
  then show ?thesis by (simp add: random_shuffle_def)
next
  case (Cons x ys)
  then have "length xs - 1 < length xs" by simp
  then show ?thesis unfolding random_shuffle_def by (rule shuffle_loop_mset)
qed

text \<open>
  Claim C5 (permutation invariant). For two parents that are permutations of
  \<open>0..n_jobs-1\<close> and every state of the random source: \<open>order_crossover\<close> returns a
  child when there are at least two jobs, and every child it returns has all its slots
  filled and is a permutation of \<open>0..n_jobs-1\<close>; and the ordering left by \<open>mutate_swap\<close>
  is a permutation of \<open>0..n_jobs-1\<close>.
\<close>

theorem permutation_invariant:
  assumes "is_permutation n p1" and "is_permutation n p2"
  shows "(2 \<le> n \<longrightarrow> (\<exists>child g'. order_crossover p1 p2 g = Inr (child, g'))) \<and>
         (\<forall>child g'. order_crossover p1 p2 g = Inr (child, g') \<longrightarrow>
            (\<exists>ys. child = map Some ys \<and> is_permutation n ys)) \<and>
         is_permutation n (fst (mutate_swap p1 rate h))"
proof (intro conjI impI allI)
  assume "2 \<le> n"
  then have "2 \<le> length p1" using is_permutation_length[OF assms(1)] by simp
  then show "\<exists>child g'. order_crossover p1 p2 g = Inr (child, g')"
    by (rule order_crossover_returns)
next
  fix child g'
  assume "order_crossover p1 p2 g = Inr (child, g')"
  with assms show "\<exists>ys. child = map Some ys \<and> is_permutation n ys"
    by (rule order_crossover_permutation)
next
  show "is_permutation n (fst (mutate_swap p1 rate h))"
    using assms(1) by (simp add: is_permutation_def mutate_swap_mset)
qed

text \<open>
  The theorem at two parents of five jobs with the cuts 1 and 2, and at a mutation that
  swaps positions 0 and 3.
\<close>

theorem permutation_invariant_witness:
  "is_permutation 5 [0, 1, 2, 3, 4] \<and> is_permutation 5 [4, 3, 2, 1, 0] \<and>
   order_crossover [0, 1, 2, 3, 4] [4, 3, 2, 1, 0] \<lparr>coins = [], ints = [1, 2]\<rparr> =
     Inr ([Some 3, Some 1, Some 2, Some 0, Some 4], \<lparr>coins = [], ints = []\<rparr>) \<and>
   (\<exists>ys. [Some 3, Some 1, Some 2, Some 0, Some 4] = map Some ys \<and> is_permutation 5 ys) \<and>
   is_permutation 5 (fst (mutate_swap [0, 1, 2, 3, 4] (1 / 2) \<lparr>coins = [0], ints = [3]\<rparr>))"
proof -
  have p1: "is_permutation 5 [0, 1, 2, 3, 4]"
    by (simp add: is_permutation_def upt_rec eval_nat_numeral)
  have p2: "is_permutation 5 [4, 3, 2, 1, 0]"
    by (simp add: is_permutation_def upt_rec eval_nat_numeral)
  have oc: "order_crossover [0, 1, 2, 3, 4] [4, 3, 2, 1, 0] \<lparr>coins = [], ints = [1, 2]\<rparr> =
     Inr ([Some 3, Some 1, Some 2, Some 0, Some 4], \<lparr>coins = [], ints = []\<rparr>)"
    by code_simp
  note t = permutation_invariant[OF p1 p2, where g = "\<lparr>coins = [], ints = [1, 2]\<rparr>"
      and rate = "1 / 2" and h = "\<lparr>coins = [0], ints = [3]\<rparr>"]
  from t oc have "\<exists>ys. [Some 3, Some 1, Some 2, Some 0, Some 4] = map Some ys \<and> is_permutation 5 ys"
    by blast
  moreover from t have "is_permutation 5 (fst (mutate_swap [0, 1, 2, 3, 4] (1 / 2) \<lparr>coins = [0], ints = [3]\<rparr>))"
    by blast
  ultimately show ?thesis using p1 p2 oc by blast
qed

section \<open>Lemmas and claims on the genetic algorithm\<close>

lemma fold_min_cost:
  "fold (\<lambda>y b. if cost y < cost b then y else b) xs (x :: ('v::linorder) individual) \<in> set (x # xs) \<and>
   (\<forall>y\<in>set (x # xs). cost (fold (\<lambda>y b. if cost y < cost b then y else b) xs x) \<le> cost y)"
proof (induction xs arbitrary: x)
  case Nil
  then show ?case by simp
next
  case (Cons z zs)
  let ?f = "\<lambda>y b. if cost y < cost b then y else (b :: 'v individual)"
  let ?x' = "if cost z < cost x then z else x"
  from Cons.IH[of ?x'] have m: "fold ?f zs ?x' \<in> set (?x' # zs)"
    and le: "\<forall>y\<in>set (?x' # zs). cost (fold ?f zs ?x') \<le> cost y" by simp_all
  have e: "fold ?f (z # zs) x = fold ?f zs ?x'" by simp
  have "cost (fold ?f zs ?x') \<le> cost ?x'" using le by simp
  then have "cost (fold ?f zs ?x') \<le> cost x" "cost (fold ?f zs ?x') \<le> cost z"
    by (auto split: if_splits)
  moreover have "fold ?f zs ?x' \<in> set (x # z # zs)" using m by (auto split: if_splits)
  ultimately show ?case unfolding e using le by simp
qed

lemma min_by_cost_least:
  assumes "min_by_cost population = Inr m"
  shows "m \<in> set population \<and> (\<forall>y\<in>set population. cost m \<le> cost y)"
proof (cases population)
  case Nil
  with assms show ?thesis by (simp add: min_by_cost_def)
next
  case (Cons x xs)
  with assms have "m = fold (\<lambda>y b. if cost y < cost b then y else b) xs x"
    by (simp add: min_by_cost_def)
  with fold_min_cost[of xs x] Cons show ?thesis by simp
qed

lemma min_by_cost_returns: "population \<noteq> [] \<Longrightarrow> \<exists>m. min_by_cost population = Inr m"
  by (cases population) (simp_all add: min_by_cost_def)

lemma breed_extends:
  "breed ar n_machines p r s pop_size crossover_rate mutation_rate tournament_k
     population new_population g = Inr (population', g') \<Longrightarrow>
   \<exists>ys. population' = new_population @ ys"
proof (induction ar n_machines p r s pop_size crossover_rate mutation_rate tournament_k
         population new_population g rule: breed.induct)
  case (1 ar n_machines p r s pop_size crossover_rate mutation_rate tournament_k
          population new_population g)
  show ?case
  proof (cases "int (length new_population) < pop_size")
    case False
    with "1.prems" show ?thesis by (simp add: breed.simps)
  next
    case True
    from "1.prems" True obtain child1 child2 g1 ind1 where
      rest: "(if int (length (new_population @ [ind1])) < pop_size then
            and_then (evaluate_genes ar child2 n_machines p r s) (\<lambda>ind2.
              breed ar n_machines p r s pop_size crossover_rate mutation_rate tournament_k
                population (new_population @ [ind1] @ [ind2]) g1)
          else
            breed ar n_machines p r s pop_size crossover_rate mutation_rate tournament_k
              population (new_population @ [ind1]) g1) = Inr (population', g')"
      by (subst (asm) breed.simps) (auto simp: and_then_Inr)
    show ?thesis
    proof (cases "int (length (new_population @ [ind1])) < pop_size")
      case room: True
      with rest obtain ind2 where
        "breed ar n_machines p r s pop_size crossover_rate mutation_rate tournament_k
                population (new_population @ [ind1] @ [ind2]) g1 = Inr (population', g')"
        by (auto simp: and_then_Inr)
      from "1.IH"(1)[OF True room this] show ?thesis by auto
    next
      case full: False
      with rest have
        "breed ar n_machines p r s pop_size crossover_rate mutation_rate tournament_k
                population (new_population @ [ind1]) g1 = Inr (population', g')"
        by simp
      from "1.IH"(2)[OF True full this] show ?thesis by auto
    qed
  qed
qed

lemma generation_result:
  assumes "generation ar n_machines p r s pop_size crossover_rate mutation_rate tournament_k
             population cur hist g = Inr (population', cur', hist', g')"
  shows "\<exists>elite best_gen. min_by_cost population = Inr elite \<and>
           min_by_cost population' = Inr best_gen \<and>
           hist' = hist @ [cost best_gen] \<and> cost best_gen \<le> cost elite \<and>
           cur' = (if cost elite < cost cur then elite else cur)"
proof -
  from assms obtain elite best_gen where
    el: "min_by_cost population = Inr elite"
    and br: "breed ar n_machines p r s pop_size crossover_rate mutation_rate tournament_k
               population [\<lparr>chromosome = chromosome elite, cost = cost elite\<rparr>] g =
             Inr (population', g')"
    and bg: "min_by_cost population' = Inr best_gen"
    and h: "hist' = hist @ [cost best_gen]"
    and c: "cur' = (if cost elite < cost cur then elite else cur)"
    by (auto simp: generation_def and_then_Inr Let_def)
  from breed_extends[OF br] obtain ys where
    "population' = [\<lparr>chromosome = chromosome elite, cost = cost elite\<rparr>] @ ys" by blast
  then have "\<lparr>chromosome = chromosome elite, cost = cost elite\<rparr> \<in> set population'" by simp
  with min_by_cost_least[OF bg]
  have "cost best_gen \<le> cost \<lparr>chromosome = chromosome elite, cost = cost elite\<rparr>" by blast
  then have "cost best_gen \<le> cost elite" by simp
  with el bg h c show ?thesis by blast
qed

lemma sorted_wrt_ge_last:
  "sorted_wrt (\<lambda>a b. b \<le> (a :: 'a::linorder)) xs \<Longrightarrow> x \<in> set xs \<Longrightarrow> last xs \<le> x"
proof (induction xs)
  case Nil
  then show ?case by simp
next
  case (Cons y ys)
  show ?case
  proof (cases "ys = []")
    case True
    with Cons.prems show ?thesis by simp
  next
    case False
    then have l: "last (y # ys) = last ys" by simp
    from Cons.prems(2) have "x = y \<or> x \<in> set ys" by simp
    then show ?thesis
    proof
      assume "x = y"
      moreover have "last ys \<in> set ys" using False by simp
      ultimately show ?thesis using Cons.prems(1) l by simp
    next
      assume "x \<in> set ys"
      with Cons.IH Cons.prems(1) l show ?thesis by simp
    qed
  qed
qed

lemma ga_loop_history:
  "ga_loop gens ar n_machines p r s pop_size crossover_rate mutation_rate tournament_k
     population cur hist g = Inr (b, h) \<Longrightarrow>
   sorted_wrt (\<lambda>a b. b \<le> a) hist \<Longrightarrow> hist \<noteq> [] \<Longrightarrow>
   min_by_cost population = Inr e \<Longrightarrow> last hist = cost e \<Longrightarrow>
   sorted_wrt (\<lambda>a b. b \<le> a) h \<and> length h = length hist + gens"
proof (induction gens arbitrary: population cur hist g e)
  case 0
  then show ?case by simp
next
  case (Suc gens)
  from Suc.prems(1) obtain population' cur' hist' g' where
    gen: "generation ar n_machines p r s pop_size crossover_rate mutation_rate tournament_k
             population cur hist g = Inr (population', cur', hist', g')"
    and rest: "ga_loop gens ar n_machines p r s pop_size crossover_rate mutation_rate tournament_k
             population' cur' hist' g' = Inr (b, h)"
    by (auto simp: and_then_Inr)
  from generation_result[OF gen] Suc.prems(4) obtain best_gen where
    bg: "min_by_cost population' = Inr best_gen"
    and h': "hist' = hist @ [cost best_gen]" and le: "cost best_gen \<le> cost e"
    by auto
  have "\<forall>x\<in>set hist. cost best_gen \<le> x"
  proof
    fix x assume "x \<in> set hist"
    from sorted_wrt_ge_last[OF Suc.prems(2) this] Suc.prems(5) le show "cost best_gen \<le> x"
      by simp
  qed
  then have s': "sorted_wrt (\<lambda>a b. b \<le> a) hist'"
    using Suc.prems(2) h' by (simp add: sorted_wrt_append)
  have ne: "hist' \<noteq> []" and l: "last hist' = cost best_gen" using h' by simp_all
  from Suc.IH[OF rest s' ne bg l] h' show ?case by simp
qed

text \<open>
  Claim C6 (monotone improvement). Whenever \<open>genetic_algorithm\<close> returns, for every
  state of the random source, its History has one entry per generation plus the entry of
  generation 0, and it is non-increasing: \<open>History[g+1] \<le> History[g]\<close> for every \<open>g\<close>.
  The elite, copied with its cost into the new population, bounds the next minimum.
\<close>

theorem history_non_increasing:
  assumes "genetic_algorithm ar n_jobs n_machines p r s pop_size generations
             crossover_rate mutation_rate tournament_k g = Inr res"
  shows "length (history res) = nat generations + 1 \<and>
         (\<forall>gen. Suc gen < length (history res) \<longrightarrow>
            history res ! Suc gen \<le> history res ! gen)"
proof -
  from assms obtain population g1 b0 b h where
    m: "min_by_cost population = Inr b0"
    and l: "ga_loop (nat generations) ar n_machines p r s pop_size crossover_rate mutation_rate
              tournament_k population b0 [cost b0] g1 = Inr (b, h)"
    and res: "res = \<lparr>best = b, history = h\<rparr>"
    by (auto simp: genetic_algorithm_def and_then_Inr)
  have "sorted_wrt (\<lambda>a b. b \<le> a) [cost b0]" "[cost b0] \<noteq> []" "last [cost b0] = cost b0"
    by simp_all
  from ga_loop_history[OF l this(1) this(2) m this(3)]
  have s: "sorted_wrt (\<lambda>a b. b \<le> a) h" and len: "length h = nat generations + 1" by simp_all
  have "h ! Suc gen \<le> h ! gen" if "Suc gen < length h" for gen
    using s that by (simp add: sorted_wrt_iff_nth_less)
  with len res show ?thesis by simp
qed

text \<open>
  The theorem at a run of two generations on two jobs (History 12, 4, 4).
\<close>

theorem history_non_increasing_witness:
  "\<exists>res. genetic_algorithm double_arith 2 1 [1, 1] [0, 0] [[None, Some 10], [Some 2, None]] 2 2
            (9 / 10) (1 / 50) 1
            \<lparr>coins = [1 / 2, 0, 1 / 2, 1 / 2, 1 / 2], ints = [1, 1, 0, 0, 0, 0, 0, 0, 1]\<rparr> =
          Inr res \<and>
        history res = [12, 4, 4] \<and>
        length (history res) = nat 2 + 1 \<and>
        history res ! Suc 0 \<le> history res ! 0 \<and>
        history res ! Suc (Suc 0) \<le> history res ! Suc 0"
proof -
  define res :: "real ga_result"
    where "res = \<lparr>best = \<lparr>chromosome = [1, 0], cost = 4\<rparr>, history = [12, 4, 4]\<rparr>"
  have run: "genetic_algorithm double_arith 2 1 [1, 1] [0, 0] [[None, Some 10], [Some 2, None]] 2 2
      (9 / 10) (1 / 50) 1
     \<lparr>coins = [1 / 2, 0, 1 / 2, 1 / 2, 1 / 2], ints = [1, 1, 0, 0, 0, 0, 0, 0, 1]\<rparr> =
     Inr res"
    unfolding res_def by code_simp
  have h: "history res = [12, 4, 4]" by (simp add: res_def)
  note t = history_non_increasing[OF run]
  from t have len: "length (history res) = nat 2 + 1" by (rule conjunct1)
  from t have mono: "\<forall>gen. Suc gen < length (history res) \<longrightarrow>
            history res ! Suc gen \<le> history res ! gen" by (rule conjunct2)
  have "Suc 0 < length (history res)" "Suc (Suc 0) < length (history res)"
    by (simp_all add: h)
  with mono have "history res ! Suc 0 \<le> history res ! 0"
    "history res ! Suc (Suc 0) \<le> history res ! Suc 0" by blast+
  with run h len show ?thesis by blast
qed

text \<open>
  Claim C2 (the best individual is updated at the end of every generation, so that
  \<open>best.cost = min(History)\<close>) fails on the code. \<open>best\<close> is only compared with the
  elite of the population a generation starts from; the population bred in the last
  generation enters History but never \<open>best\<close>. Two jobs on one machine, setups 10 and 2,
  a population of two, one generation: the mutated child \<open>[1, 0]\<close> costs 4 and History is
  \<open>[12, 4]\<close>, but the individual returned as best is \<open>[0, 1]\<close> of cost 12.
\<close>

theorem genetic_algorithm_best_is_stale:
  "genetic_algorithm double_arith 2 1 [1, 1] [0, 0] [[None, Some 10], [Some 2, None]] 2 1 (9 / 10) (1 / 50) 1
     \<lparr>coins = [1 / 2, 0, 1 / 2, 1 / 2, 1 / 2], ints = [1, 1, 0, 0, 0, 0, 0, 0, 1]\<rparr> =
     Inr \<lparr>best = \<lparr>chromosome = [0, 1], cost = 12\<rparr>, history = [12, 4]\<rparr>"
  by code_simp

lemma create_individual_outcome:
  assumes wf: "well_formed ar n n_machines p r s" and n: "1 \<le> n"
  shows "(\<exists>ind g'. create_individual ar n n_machines p r s g = Inr (ind, g')) \<or>
         create_individual ar n n_machines p r s g = Inl OverflowError \<or>
         create_individual ar n n_machines p r s g = Inl TypeError"
proof -
  obtain c g' where sh: "random_shuffle [0..<n] g = (c, g')" by (cases "random_shuffle [0..<n] g")
  have "mset c = mset [0..<n]" using random_shuffle_mset[of "[0..<n]" g] sh by simp
  then have perm: "is_permutation n c" by (simp add: is_permutation_def)
  have e: "create_individual ar n n_machines p r s g =
      and_then (decode_schedule ar c n_machines p r s)
        (\<lambda>(makespan, sched). Inr (\<lparr>chromosome = c, cost = makespan\<rparr>, g'))"
    using sh
    by (cases "decode_schedule ar c n_machines p r s")
      (simp_all add: create_individual_def evaluate_def and_then_def split: prod.splits)
  from decode_schedule_outcome[OF wf perm n]
  have "(\<exists>makespan sched. decode_schedule ar c n_machines p r s = Inr (makespan, sched)) \<or>
        decode_schedule ar c n_machines p r s = Inl OverflowError \<or>
        decode_schedule ar c n_machines p r s = Inl TypeError" by blast
  then show ?thesis
  proof (elim disjE exE)
    fix makespan sched
    assume "decode_schedule ar c n_machines p r s = Inr (makespan, sched)"
    then have "create_individual ar n n_machines p r s g =
        Inr (\<lparr>chromosome = c, cost = makespan\<rparr>, g')"
      unfolding e by (simp add: and_then_def)
    then show ?thesis by blast
  next
    assume "decode_schedule ar c n_machines p r s = Inl OverflowError"
    then have "create_individual ar n n_machines p r s g = Inl OverflowError"
      unfolding e by (simp add: and_then_def)
    then show ?thesis by blast
  next
    assume "decode_schedule ar c n_machines p r s = Inl TypeError"
    then have "create_individual ar n n_machines p r s g = Inl TypeError"
      unfolding e by (simp add: and_then_def)
    then show ?thesis by blast
  qed
qed

lemma init_population_outcome:
  assumes wf: "well_formed ar n n_machines p r s" and n: "1 \<le> n"
  shows "(\<exists>population g'. init_population k ar n n_machines p r s g = Inr (population, g')) \<or>
         init_population k ar n n_machines p r s g = Inl OverflowError \<or>
         init_population k ar n n_machines p r s g = Inl TypeError"
proof (induction k arbitrary: g)
  case 0
  then show ?case by simp
next
  case (Suc k)
  from create_individual_outcome[OF wf n, of g]
  show ?case
  proof (elim disjE exE)
    fix ind g1
    assume c: "create_individual ar n n_machines p r s g = Inr (ind, g1)"
    from Suc.IH[of g1] show ?thesis
    proof (elim disjE exE)
      fix rest g2
      assume "init_population k ar n n_machines p r s g1 = Inr (rest, g2)"
      with c have "init_population (Suc k) ar n n_machines p r s g = Inr (ind # rest, g2)"
        by (simp add: and_then_def)
      then show ?thesis by blast
    next
      assume "init_population k ar n n_machines p r s g1 = Inl OverflowError"
      with c have "init_population (Suc k) ar n n_machines p r s g = Inl OverflowError"
        by (simp add: and_then_def)
      then show ?thesis by blast
    next
      assume "init_population k ar n n_machines p r s g1 = Inl TypeError"
      with c have "init_population (Suc k) ar n n_machines p r s g = Inl TypeError"
        by (simp add: and_then_def)
      then show ?thesis by blast
    qed
  next
    assume "create_individual ar n n_machines p r s g = Inl OverflowError"
    then have "init_population (Suc k) ar n n_machines p r s g = Inl OverflowError"
      by (simp add: and_then_def)
    then show ?thesis by blast
  next
    assume "create_individual ar n n_machines p r s g = Inl TypeError"
    then have "init_population (Suc k) ar n n_machines p r s g = Inl TypeError"
      by (simp add: and_then_def)
    then show ?thesis by blast
  qed
qed

lemma init_population_length:
  "init_population k ar n n_machines p r s g = Inr (population, g') \<Longrightarrow> length population = k"
proof (induction k arbitrary: g population g')
  case 0
  then show ?case by simp
next
  case (Suc k)
  from Suc.prems obtain ind g1 rest where
    "init_population k ar n n_machines p r s g1 = Inr (rest, g')" and "population = ind # rest"
    by (auto simp: and_then_Inr)
  with Suc.IH show ?case by simp
qed

lemma empty_population_fails:
  assumes "pop_size \<le> 0"
  shows "genetic_algorithm ar n n_machines p r s pop_size generations crossover_rate mutation_rate
           tournament_k g = Inl ValueError"
  using assms by (simp add: genetic_algorithm_def and_then_def min_by_cost_def)

lemma failed_population_fails:
  assumes "init_population (nat pop_size) ar n n_machines p r s g = Inl e"
  shows "genetic_algorithm ar n n_machines p r s pop_size generations crossover_rate mutation_rate
           tournament_k g = Inl e"
  using assms by (simp add: genetic_algorithm_def and_then_def)

lemma no_generations_returns:
  assumes i: "init_population (nat pop_size) ar n n_machines p r s g = Inr (population, g1)"
    and ps: "1 \<le> pop_size" and gens: "generations \<le> 0"
  shows "\<exists>b. min_by_cost population = Inr b \<and>
             genetic_algorithm ar n n_machines p r s pop_size generations crossover_rate
               mutation_rate tournament_k g = Inr \<lparr>best = b, history = [cost b]\<rparr>"
proof -
  from init_population_length[OF i] ps have "population \<noteq> []" by auto
  from min_by_cost_returns[OF this] obtain b where m: "min_by_cost population = Inr b" ..
  have "genetic_algorithm ar n n_machines p r s pop_size generations crossover_rate
               mutation_rate tournament_k g = Inr \<lparr>best = b, history = [cost b]\<rparr>"
    using i m gens by (simp add: genetic_algorithm_def and_then_def)
  with m show ?thesis by blast
qed

lemma oversized_tournament_fails:
  assumes i: "init_population (nat pop_size) ar n n_machines p r s g = Inr (population, g1)"
    and ps: "2 \<le> pop_size" and gens: "1 \<le> generations" and k: "pop_size < tournament_k"
  shows "genetic_algorithm ar n n_machines p r s pop_size generations crossover_rate
               mutation_rate tournament_k g = Inl ValueError"
proof -
  note l = init_population_length[OF i]
  from l ps have ne: "population \<noteq> []" by auto
  from min_by_cost_returns[OF ne] obtain b where m: "min_by_cost population = Inr b" ..
  have "random_sample population tournament_k g1 = Inl ValueError"
    using l k ps by (simp add: random_sample_def)
  then have "breed_children population crossover_rate mutation_rate tournament_k g1 =
               Inl ValueError"
    by (simp add: breed_children_def tournament_selection_def and_then_def)
  then have br: "breed ar n_machines p r s pop_size crossover_rate mutation_rate tournament_k
               population [\<lparr>chromosome = chromosome b, cost = cost b\<rparr>] g1 = Inl ValueError"
    using ps by (subst breed.simps) (simp add: and_then_def)
  have gen: "generation ar n_machines p r s pop_size crossover_rate mutation_rate tournament_k
             population b [cost b] g1 = Inl ValueError"
    using m br by (simp add: generation_def and_then_def)
  obtain gens' where g': "nat generations = Suc gens'" using gens by (cases "nat generations") auto
  have "ga_loop (nat generations) ar n_machines p r s pop_size crossover_rate mutation_rate
          tournament_k population b [cost b] g1 = Inl ValueError"
    unfolding g' using gen by (simp add: and_then_def)
  then show ?thesis
    using i m by (simp add: genetic_algorithm_def and_then_def)
qed

text \<open>
  Claim C9, as amended (no configuration validation). \<open>genetic_algorithm\<close> checks no
  parameter and has no configuration error of its own; the initial population is built
  first, whatever the configuration. For every arithmetic and every state of the random
  source: a non-positive \<open>pop_size\<close> fails with the ValueError of \<^verbatim>\<open>min\<close> over the
  empty initial population; an error raised while the initial population is built is the
  error of the run, and on a well-formed instance with at least one job that can only be
  the OverflowError or TypeError of a decoder whose arithmetic overflows; once the initial
  population is built, a non-positive \<open>generations\<close> is accepted and the initial best is
  returned with a History of one entry, and a \<open>tournament_k\<close> above \<open>pop_size\<close> (with
  \<open>pop_size \<ge> 2\<close>, \<open>generations \<ge> 1\<close>) is met as the ValueError of
  \<^verbatim>\<open>random.sample\<close> in the first tournament.
\<close>

theorem genetic_algorithm_configuration:
  "(pop_size \<le> 0 \<longrightarrow>
      genetic_algorithm ar n n_machines p r s pop_size generations crossover_rate mutation_rate
        tournament_k g = Inl ValueError) \<and>
   (init_population (nat pop_size) ar n n_machines p r s g = Inl e \<longrightarrow>
      genetic_algorithm ar n n_machines p r s pop_size generations crossover_rate mutation_rate
        tournament_k g = Inl e) \<and>
   (well_formed ar n n_machines p r s \<and> 1 \<le> n \<longrightarrow>
      (\<exists>population g1.
          init_population (nat pop_size) ar n n_machines p r s g = Inr (population, g1)) \<or>
      init_population (nat pop_size) ar n n_machines p r s g = Inl OverflowError \<or>
      init_population (nat pop_size) ar n n_machines p r s g = Inl TypeError) \<and>
   (init_population (nat pop_size) ar n n_machines p r s g = Inr (population, g1) \<and>
    1 \<le> pop_size \<and> generations \<le> 0 \<longrightarrow>
      (\<exists>b. min_by_cost population = Inr b \<and>
           genetic_algorithm ar n n_machines p r s pop_size generations crossover_rate
              mutation_rate tournament_k g = Inr \<lparr>best = b, history = [cost b]\<rparr>)) \<and>
   (init_population (nat pop_size) ar n n_machines p r s g = Inr (population, g1) \<and>
    2 \<le> pop_size \<and> 1 \<le> generations \<and> pop_size < tournament_k \<longrightarrow>
      genetic_algorithm ar n n_machines p r s pop_size generations crossover_rate mutation_rate
        tournament_k g = Inl ValueError)"
proof (intro conjI impI)
  assume "pop_size \<le> 0"
  then show "genetic_algorithm ar n n_machines p r s pop_size generations crossover_rate
               mutation_rate tournament_k g = Inl ValueError"
    by (rule empty_population_fails)
next
  assume "init_population (nat pop_size) ar n n_machines p r s g = Inl e"
  then show "genetic_algorithm ar n n_machines p r s pop_size generations crossover_rate
               mutation_rate tournament_k g = Inl e"
    by (rule failed_population_fails)
next
  assume "well_formed ar n n_machines p r s \<and> 1 \<le> n"
  then have "well_formed ar n n_machines p r s" "1 \<le> n" by simp_all
  then show "(\<exists>population g1.
          init_population (nat pop_size) ar n n_machines p r s g = Inr (population, g1)) \<or>
      init_population (nat pop_size) ar n n_machines p r s g = Inl OverflowError \<or>
      init_population (nat pop_size) ar n n_machines p r s g = Inl TypeError"
    by (rule init_population_outcome)
next
  assume "init_population (nat pop_size) ar n n_machines p r s g = Inr (population, g1) \<and>
    1 \<le> pop_size \<and> generations \<le> 0"
  then have "init_population (nat pop_size) ar n n_machines p r s g = Inr (population, g1)"
    "1 \<le> pop_size" "generations \<le> 0"
    by simp_all
  then show "\<exists>b. min_by_cost population = Inr b \<and>
           genetic_algorithm ar n n_machines p r s pop_size generations crossover_rate
              mutation_rate tournament_k g = Inr \<lparr>best = b, history = [cost b]\<rparr>"
    by (rule no_generations_returns)
next
  assume "init_population (nat pop_size) ar n n_machines p r s g = Inr (population, g1) \<and>
    2 \<le> pop_size \<and> 1 \<le> generations \<and> pop_size < tournament_k"
  then have "init_population (nat pop_size) ar n n_machines p r s g = Inr (population, g1)"
    "2 \<le> pop_size" "1 \<le> generations" "pop_size < tournament_k" by simp_all
  then show "genetic_algorithm ar n n_machines p r s pop_size generations crossover_rate
        mutation_rate tournament_k g = Inl ValueError"
    by (rule oversized_tournament_fails)
qed

text \<open>
  The theorem at one job on one machine: an empty population, a run without generations,
  a tournament larger than the population, and an instance whose only completion time
  overflows.
\<close>

theorem genetic_algorithm_configuration_witness:
  "genetic_algorithm double_arith 1 1 [5] [0] [[None]] 0 5 (9 / 10) (1 / 50) 3
     \<lparr>coins = [], ints = []\<rparr> = Inl ValueError \<and>
   well_formed double_arith 1 1 [5] [0] [[None]] \<and>
   init_population (nat 2) double_arith 1 1 [5] [0] [[None]] \<lparr>coins = [], ints = []\<rparr> =
     Inr ([\<lparr>chromosome = [0], cost = 5\<rparr>, \<lparr>chromosome = [0], cost = 5\<rparr>],
          \<lparr>coins = [], ints = []\<rparr>) \<and>
   (\<exists>b. min_by_cost [\<lparr>chromosome = [0], cost = 5 :: real\<rparr>, \<lparr>chromosome = [0], cost = 5\<rparr>] =
           Inr b \<and>
        genetic_algorithm double_arith 1 1 [5] [0] [[None]] 2 0 (9 / 10) (1 / 50) 1
           \<lparr>coins = [], ints = []\<rparr> = Inr \<lparr>best = b, history = [cost b]\<rparr>) \<and>
   genetic_algorithm double_arith 1 1 [5] [0] [[None]] 2 1 (9 / 10) (1 / 50) 3
     \<lparr>coins = [], ints = []\<rparr> = Inl ValueError \<and>
   well_formed double_arith 1 1 [overflow_bound / 2] [overflow_bound / 2] [[None]] \<and>
   init_population (nat 2) double_arith 1 1 [overflow_bound / 2] [overflow_bound / 2] [[None]]
     \<lparr>coins = [], ints = []\<rparr> = Inl TypeError \<and>
   genetic_algorithm double_arith 1 1 [overflow_bound / 2] [overflow_bound / 2] [[None]]
     2 1 (9 / 10) (1 / 50) 1 \<lparr>coins = [], ints = []\<rparr> = Inl TypeError"
proof -
  have wf: "well_formed double_arith 1 1 [5] [0] [[None]]"
    by (simp add: well_formed_def is_time_def double_arith_def overflow_bound_def)
  have wf': "well_formed double_arith 1 1 [overflow_bound / 2] [overflow_bound / 2] [[None]]"
    by (simp add: well_formed_def is_time_def double_arith_def overflow_bound_def)
  have i: "init_population (nat 2) double_arith 1 1 [5] [0] [[None]] \<lparr>coins = [], ints = []\<rparr> =
     Inr ([\<lparr>chromosome = [0], cost = 5\<rparr>, \<lparr>chromosome = [0], cost = 5\<rparr>],
          \<lparr>coins = [], ints = []\<rparr>)"
    by code_simp
  have d: "decode_schedule double_arith [0] 1 [overflow_bound / 2] [overflow_bound / 2]
      [[None]] = Inl TypeError"
    by (simp add: decode_schedule_def init_state_def place_job_def candidate_def and_then_def
        py_index_def py_max_def setup_value_def py_add_def raise_overflow_def double_arith_def)
  have sh: "random_shuffle [0..<1] \<lparr>coins = [], ints = []\<rparr> = ([0], \<lparr>coins = [], ints = []\<rparr>)"
    by code_simp
  have c: "create_individual double_arith 1 1 [overflow_bound / 2] [overflow_bound / 2] [[None]]
      \<lparr>coins = [], ints = []\<rparr> = Inl TypeError"
    unfolding create_individual_def sh using d by (simp add: evaluate_def and_then_def)
  have i': "init_population (nat 2) double_arith 1 1 [overflow_bound / 2] [overflow_bound / 2]
      [[None]] \<lparr>coins = [], ints = []\<rparr> = Inl TypeError"
    using c by (simp add: numeral_2_eq_2 and_then_def)
  have a: "genetic_algorithm double_arith 1 1 [5] [0] [[None]] 0 5 (9 / 10) (1 / 50) 3
             \<lparr>coins = [], ints = []\<rparr> = Inl ValueError"
    using genetic_algorithm_configuration[of 0 double_arith 1 1 "[5]" "[0]" "[[None]]" 5
        "9 / 10" "1 / 50" 3 "\<lparr>coins = [], ints = []\<rparr>"]
    by simp
  have b: "\<exists>b. min_by_cost [\<lparr>chromosome = [0], cost = 5 :: real\<rparr>, \<lparr>chromosome = [0], cost = 5\<rparr>] =
           Inr b \<and>
        genetic_algorithm double_arith 1 1 [5] [0] [[None]] 2 0 (9 / 10) (1 / 50) 1
           \<lparr>coins = [], ints = []\<rparr> = Inr \<lparr>best = b, history = [cost b]\<rparr>"
    using genetic_algorithm_configuration[of 2 double_arith 1 1 "[5]" "[0]" "[[None]]" 0
        "9 / 10" "1 / 50" 1 "\<lparr>coins = [], ints = []\<rparr>" _
        "[\<lparr>chromosome = [0], cost = 5\<rparr>, \<lparr>chromosome = [0], cost = 5\<rparr>]"
        "\<lparr>coins = [], ints = []\<rparr>"] i
    by simp
  have c': "genetic_algorithm double_arith 1 1 [5] [0] [[None]] 2 1 (9 / 10) (1 / 50) 3
             \<lparr>coins = [], ints = []\<rparr> = Inl ValueError"
    using genetic_algorithm_configuration[of 2 double_arith 1 1 "[5]" "[0]" "[[None]]" 1
        "9 / 10" "1 / 50" 3 "\<lparr>coins = [], ints = []\<rparr>" _
        "[\<lparr>chromosome = [0], cost = 5\<rparr>, \<lparr>chromosome = [0], cost = 5\<rparr>]"
        "\<lparr>coins = [], ints = []\<rparr>"] i
    by simp
  have e: "genetic_algorithm double_arith 1 1 [overflow_bound / 2] [overflow_bound / 2] [[None]]
     2 1 (9 / 10) (1 / 50) 1 \<lparr>coins = [], ints = []\<rparr> = Inl TypeError"
    using genetic_algorithm_configuration[of 2 double_arith 1 1 "[overflow_bound / 2]"
        "[overflow_bound / 2]" "[[None]]" 1 "9 / 10" "1 / 50" 1 "\<lparr>coins = [], ints = []\<rparr>"
        TypeError] i'
    by blast
  from a b c' e wf wf' i i' show ?thesis by blast
qed

text \<open>
  Claim C9 as stated fails: with \<open>generations = 0\<close> and \<open>tournament_k = 3 \<ge> pop_size = 1\<close>
  nothing is rejected; the run returns the initial best.
\<close>

theorem genetic_algorithm_no_validation_counterexample:
  "genetic_algorithm double_arith 1 1 [5] [0] [[None]] 1 0 (9 / 10) (1 / 50) 3
     \<lparr>coins = [], ints = []\<rparr> =
     Inr \<lparr>best = \<lparr>chromosome = [0], cost = 5\<rparr>, history = [5]\<rparr>"
  by code_simp

lemma breed_children_short_parent:
  assumes t1: "tournament_selection population tournament_k g = Inr (w1, g1)"
    and t2: "tournament_selection population tournament_k g1 = Inr (w2, g2)"
    and u: "fst (random_random g2) < crossover_rate"
    and short: "length (chromosome w1) \<le> 1"
  shows "breed_children population crossover_rate mutation_rate tournament_k g = Inl ValueError"
proof -
  obtain u' g3 where r: "random_random g2 = (u', g3)" by (cases "random_random g2")
  with u have u': "u' < crossover_rate" by simp
  have "order_crossover (chromosome w1) (chromosome w2) g3 = Inl ValueError"
    using short by (intro order_crossover_short) simp
  then show ?thesis
    using t1 t2 r u' by (simp add: breed_children_def and_then_def Let_def)
qed

text \<open>
  Claim C10 (crossover needs two genes). For a first parent of length 0 or 1,
  \<open>order_crossover\<close> raises ValueError (the sample of two cut indices), whatever the
  random source; so the body of the breeding loop raises ValueError whenever its
  crossover branch is taken with such a parent; and a run of \<open>genetic_algorithm\<close> on a
  one-job instance with \<open>crossover_rate = 0.9\<close> fails in this way.
\<close>

theorem order_crossover_needs_two_genes:
  "(\<forall>p1 p2 g. length p1 \<le> 1 \<longrightarrow> order_crossover p1 p2 g = Inl ValueError) \<and>
   (\<forall>population tournament_k crossover_rate mutation_rate g w1 g1 w2 g2.
      tournament_selection population tournament_k g = Inr (w1, g1) \<and>
      tournament_selection population tournament_k g1 = Inr (w2, g2) \<and>
      fst (random_random g2) < crossover_rate \<and> length (chromosome w1) \<le> 1 \<longrightarrow>
      breed_children population crossover_rate mutation_rate tournament_k g = Inl ValueError) \<and>
   genetic_algorithm double_arith 1 1 [5] [0] [[None]] 2 1 (9 / 10) (1 / 50) 1
     \<lparr>coins = [1 / 2], ints = []\<rparr> = Inl ValueError"
proof (intro conjI allI impI)
  fix p1 p2 :: "nat list" and g
  assume "length p1 \<le> 1"
  then have "length p1 < 2" by simp
  then show "order_crossover p1 p2 g = Inl ValueError" by (rule order_crossover_short)
next
  fix population tournament_k crossover_rate mutation_rate g w1 g1 w2 g2
  assume "tournament_selection population tournament_k g = Inr (w1, g1) \<and>
      tournament_selection population tournament_k g1 = Inr (w2, g2) \<and>
      fst (random_random g2) < crossover_rate \<and> length (chromosome w1) \<le> 1"
  then show "breed_children population crossover_rate mutation_rate tournament_k g =
               Inl ValueError"
    using breed_children_short_parent by blast
next
  show "genetic_algorithm double_arith 1 1 [5] [0] [[None]] 2 1 (9 / 10) (1 / 50) 1
     \<lparr>coins = [1 / 2], ints = []\<rparr> = Inl ValueError"
    by code_simp
qed

text \<open>The theorem at parents of length 1 and 0.\<close>

theorem order_crossover_needs_two_genes_witness:
  "length [0 :: nat] \<le> 1 \<and>
   order_crossover [0] [0] \<lparr>coins = [], ints = [0, 0]\<rparr> = Inl ValueError \<and>
   order_crossover [] [] \<lparr>coins = [], ints = [0, 0]\<rparr> = Inl ValueError"
proof -
  have a: "length [0 :: nat] \<le> 1" and b: "length ([] :: nat list) \<le> 1" by simp_all
  from order_crossover_needs_two_genes a b show ?thesis by blast
qed

end
